theory Spec2Isabelle
  imports Complex_Main "HOL-Library.List_Lexorder"
begin

section \<open>Python values shared by the notebook's functions\<close>

text \<open>
  A Python \<^verbatim>\<open>str\<close> is a sequence of Unicode code points; iterating it yields its
  one-character strings, and strings compare lexicographically by code point. A string is
  therefore a list of code points here, ordered by the lexicographic order on lists.
  Token ids are Python integers.
\<close>

type_synonym str = "nat list"

definition str_of :: "string \<Rightarrow> str" where
  "str_of s = map of_char s"

datatype error =
  KeyError | IndexError | TypeError | UnboundLocalError | RuntimeError | OverflowError

text \<open>Subscription \<^verbatim>\<open>d[k]\<close> of a dictionary raises \<^verbatim>\<open>KeyError\<close> on a missing key.\<close>

definition getitem :: "('k \<rightharpoonup> 'v) \<Rightarrow> 'k \<Rightarrow> error + 'v" where
  "getitem d k = (case d k of None \<Rightarrow> Inl KeyError | Some v \<Rightarrow> Inr v)"

section \<open>The tokenizer\<close>

text \<open>
  \<^verbatim>\<open>
  def build_tokenizer(sents):
      vocab = sorted(list(set("".join(sents))))
      vocab.append("<sos>")
      vocab.append("<eos>")
      vocab.append("<unk>")
      vocab_stoi = {token: i for i, token in enumerate(vocab)}
      vocab_itos = {i: token for i, token in enumerate(vocab)}
      sos_token_id = vocab_stoi["<sos>"]
      eos_token_id = vocab_stoi["<eos>"]
      unk_token_id = vocab_stoi["<unk>"]
      return {"stoi": vocab_stoi, "itos": vocab_itos, "sos_token_id": sos_token_id,
              "eos_token_id": eos_token_id, "unk_token_id": unk_token_id}
  \<close>
  The returned dictionary has five fixed keys and is a record here. The two dictionary
  comprehensions insert the pairs of \<^verbatim>\<open>enumerate(vocab)\<close> from left to right, a later
  pair overwriting an earlier one with the same key.

  The order in which \<^verbatim>\<open>list(set(...))\<close> lists the elements of a set is not fixed by
  Python (it follows the string hashes, which differ between interpreter runs), so that
  listing is the parameter \<open>list_of\<close> of the model; \<open>lists_set\<close> says that it lists
  a set, each element once. \<open>corpus_set\<close> is \<^verbatim>\<open>set("".join(sents))\<close>, the set of the
  one-character strings of the corpus, and \<open>specials\<close> the three reserved tokens in the
  order in which they are appended.
\<close>

record vocab =
  stoi :: "str \<rightharpoonup> int"
  itos :: "int \<rightharpoonup> str"
  sos_token_id :: int
  eos_token_id :: int
  unk_token_id :: int

definition dict_stoi :: "str list \<Rightarrow> (str \<rightharpoonup> int)" where
  "dict_stoi v = fold (\<lambda>(i, token) d. d(token \<mapsto> int i)) (enumerate 0 v) Map.empty"

definition dict_itos :: "str list \<Rightarrow> (int \<rightharpoonup> str)" where
  "dict_itos v = fold (\<lambda>(i, token) d. d(int i \<mapsto> token)) (enumerate 0 v) Map.empty"

definition corpus_set :: "str list \<Rightarrow> str set" where
  "corpus_set sents = set (map (\<lambda>c. [c]) (concat sents))"

definition lists_set :: "(str set \<Rightarrow> str list) \<Rightarrow> str set \<Rightarrow> bool" where
  "lists_set list_of S \<longleftrightarrow> set (list_of S) = S \<and> distinct (list_of S)"

definition specials :: "str list" where
  "specials = [str_of ''<sos>'', str_of ''<eos>'', str_of ''<unk>'']"

definition vocab_list :: "(str set \<Rightarrow> str list) \<Rightarrow> str list \<Rightarrow> str list" where
  "vocab_list list_of sents =
     sort (list_of (corpus_set sents))
       @ [str_of ''<sos>''] @ [str_of ''<eos>''] @ [str_of ''<unk>'']"

definition build_tokenizer :: "(str set \<Rightarrow> str list) \<Rightarrow> str list \<Rightarrow> error + vocab" where
  "build_tokenizer list_of sents =
     (let vocab = vocab_list list_of sents;
          vocab_stoi = dict_stoi vocab;
          vocab_itos = dict_itos vocab
      in case getitem vocab_stoi (str_of ''<sos>'') of Inl e \<Rightarrow> Inl e | Inr sos \<Rightarrow>
         (case getitem vocab_stoi (str_of ''<eos>'') of Inl e \<Rightarrow> Inl e | Inr eos \<Rightarrow>
         (case getitem vocab_stoi (str_of ''<unk>'') of Inl e \<Rightarrow> Inl e | Inr unk \<Rightarrow>
            Inr \<lparr>stoi = vocab_stoi, itos = vocab_itos, sos_token_id = sos,
                 eos_token_id = eos, unk_token_id = unk\<rparr>)))"

text \<open>
  \<^verbatim>\<open>
  def tokenize(sents, vocab):
      retval = []
      for sent in sents:
          _retval = [vocab["sos_token_id"]]
          for letter in sent:
              _retval.append(vocab["stoi"][letter])
          _retval.append(vocab["eos_token_id"])
          retval.append(_retval)
      return retval
  \<close>
  The inner loop carries \<^verbatim>\<open>_retval\<close>, the outer loop \<^verbatim>\<open>retval\<close>; the first missing
  letter raises \<^verbatim>\<open>KeyError\<close> and ends the call.
\<close>

fun tokenize_letters :: "vocab \<Rightarrow> str \<Rightarrow> int list \<Rightarrow> error + int list" where
  "tokenize_letters vocab [] retval' = Inr retval'"
| "tokenize_letters vocab (letter # sent) retval' =
     (case getitem (stoi vocab) [letter] of
        Inl e \<Rightarrow> Inl e
      | Inr i \<Rightarrow> tokenize_letters vocab sent (retval' @ [i]))"

fun tokenize_sents :: "vocab \<Rightarrow> str list \<Rightarrow> int list list \<Rightarrow> error + int list list" where
  "tokenize_sents vocab [] retval = Inr retval"
| "tokenize_sents vocab (sent # sents) retval =
     (case tokenize_letters vocab sent [sos_token_id vocab] of
        Inl e \<Rightarrow> Inl e
      | Inr retval' \<Rightarrow> tokenize_sents vocab sents (retval @ [retval' @ [eos_token_id vocab]]))"

definition tokenize :: "str list \<Rightarrow> vocab \<Rightarrow> error + int list list" where
  "tokenize sents vocab = tokenize_sents vocab sents []"

text \<open>
  The notebook maps ids back to text inline:
  \<^verbatim>\<open>"".join([trg_vocab["itos"][i] for i in seqs])\<close>.
\<close>

fun itos_all :: "vocab \<Rightarrow> int list \<Rightarrow> error + str list" where
  "itos_all vocab [] = Inr []"
| "itos_all vocab (i # seqs) =
     (case getitem (itos vocab) i of
        Inl e \<Rightarrow> Inl e
      | Inr token \<Rightarrow> (case itos_all vocab seqs of Inl e \<Rightarrow> Inl e | Inr tokens \<Rightarrow> Inr (token # tokens)))"

definition itos_join :: "vocab \<Rightarrow> int list \<Rightarrow> error + str" where
  "itos_join vocab seqs = (case itos_all vocab seqs of Inl e \<Rightarrow> Inl e | Inr tokens \<Rightarrow> Inr (concat tokens))"

text \<open>
  Modelled from the spec: \<^verbatim>\<open>detokenize\<close> "stripping reserved symbols". The notebook has
  the inline join above and no function that removes the reserved ids; stripping is
  modelled as dropping every id equal to the start or the end id.
\<close>

definition strip_reserved :: "vocab \<Rightarrow> int list \<Rightarrow> int list" where
  "strip_reserved vocab seqs =
     filter (\<lambda>i. i \<noteq> sos_token_id vocab \<and> i \<noteq> eos_token_id vocab) seqs"

subsection \<open>The reference layout\<close>

text \<open>
  The layout the vocabulary is compared with: the distinct characters of the corpus in
  increasing order, then the three reserved tokens, numbered from zero.
\<close>

definition sorted_chars :: "str list \<Rightarrow> nat list" where
  "sorted_chars sents = sorted_list_of_set (set (concat sents))"

definition ref_vocab :: "str list \<Rightarrow> str list" where
  "ref_vocab sents = map (\<lambda>c. [c]) (sorted_chars sents) @ specials"

definition ref_tokenizer :: "str list \<Rightarrow> vocab" where
  "ref_tokenizer sents =
     \<lparr>stoi = dict_stoi (ref_vocab sents), itos = dict_itos (ref_vocab sents),
      sos_token_id = int (length (sorted_chars sents)),
      eos_token_id = int (length (sorted_chars sents)) + 1,
      unk_token_id = int (length (sorted_chars sents)) + 2\<rparr>"

section \<open>Tensors\<close>

text \<open>
  A tensor is its shape and its elements in row-major order. The element type is a
  parameter: token tensors hold integers (\<^verbatim>\<open>dtype=torch.long\<close>), hidden states and logits
  hold floating-point numbers, which no function below inspects.
\<close>

record 'a tensor =
  shape :: "nat list"
  elems :: "'a list"

definition well_shaped :: "'a tensor \<Rightarrow> bool" where
  "well_shaped t \<longleftrightarrow> length (elems t) = prod_list (shape t)"

text \<open>
  \<^verbatim>\<open>torch.ones(size, dtype=torch.long) * a\<close> for a Python integer \<open>a\<close>. The elements
  of the tensor are 64-bit signed integers. The framework converts \<open>a\<close> to a signed
  64-bit scalar and, when it does not fit, to an unsigned one; an integer that fits
  neither (below \<open>-2^63\<close>, or \<open>2^64\<close> and above) raises \<^verbatim>\<open>OverflowError\<close>. The product
  with an unsigned scalar of \<open>2^63\<close> and above wraps around to \<open>a - 2^64\<close>.
\<close>

definition fits_long :: "int \<Rightarrow> bool" where
  "fits_long a \<longleftrightarrow> - (2 ^ 63) \<le> a \<and> a < 2 ^ 64"

definition long_value :: "int \<Rightarrow> int" where
  "long_value a = (if a < 2 ^ 63 then a else a - 2 ^ 64)"

definition ones_times :: "nat list \<Rightarrow> int \<Rightarrow> error + int tensor" where
  "ones_times sizes a =
     (if fits_long a
      then Inr \<lparr>shape = sizes, elems = replicate (prod_list sizes) (1 * long_value a)\<rparr>
      else Inl OverflowError)"

text \<open>The batch of one id that generation feeds to the decoder.\<close>

definition long_batch :: "int \<Rightarrow> int tensor" where
  "long_batch a = \<lparr>shape = [1, 1], elems = [long_value a]\<rparr>"

text \<open>
  \<^verbatim>\<open>t.unsqueeze(dim)\<close> inserts a dimension of size one; \<^verbatim>\<open>t.squeeze(dim)\<close> removes
  dimension \<open>d\<close> when its size is one and returns the tensor unchanged otherwise. A
  dimension outside the tensor's range raises \<^verbatim>\<open>IndexError\<close>; a tensor without dimensions
  accepts dimension \<open>0\<close>.
\<close>

definition unsqueeze :: "nat \<Rightarrow> 'a tensor \<Rightarrow> error + 'a tensor" where
  "unsqueeze d t =
     (if d \<le> length (shape t)
      then Inr (t\<lparr>shape := take d (shape t) @ [1] @ drop d (shape t)\<rparr>)
      else Inl IndexError)"

definition squeeze :: "nat \<Rightarrow> 'a tensor \<Rightarrow> error + 'a tensor" where
  "squeeze d t =
     (if d < length (shape t)
      then (if shape t ! d = 1
            then Inr (t\<lparr>shape := take d (shape t) @ drop (Suc d) (shape t)\<rparr>)
            else Inr t)
      else if d = 0 then Inr t
      else Inl IndexError)"

text \<open>\<^verbatim>\<open>t.shape[i]\<close>: the shape is a tuple, indexed here from the front only.\<close>

definition shape_at :: "'a tensor \<Rightarrow> nat \<Rightarrow> error + nat" where
  "shape_at t i = (if i < length (shape t) then Inr (shape t ! i) else Inl IndexError)"

text \<open>\<^verbatim>\<open>t[0]\<close>: the first slice along dimension 0.\<close>

definition select0 :: "'a tensor \<Rightarrow> error + 'a tensor" where
  "select0 t =
     (case shape t of
        [] \<Rightarrow> Inl IndexError
      | n # rest \<Rightarrow>
          if n = 0 then Inl IndexError
          else Inr \<lparr>shape = rest, elems = take (prod_list rest) (elems t)\<rparr>)"

text \<open>
  \<^verbatim>\<open>t[:, j]\<close> for \<open>j \<ge> 0\<close>: from each of the \<open>n\<close> slices along dimension 0, the
  \<open>j\<close>-th slice along dimension 1.
\<close>

definition select_col :: "'a tensor \<Rightarrow> nat \<Rightarrow> error + 'a tensor" where
  "select_col t j =
     (case shape t of
        n # l # rest \<Rightarrow>
          if j < l
          then Inr \<lparr>shape = n # rest,
                    elems = concat (map (\<lambda>i. take (prod_list rest)
                                          (drop ((i * l + j) * prod_list rest) (elems t))) [0..<n])\<rparr>
          else Inl IndexError
      | _ \<Rightarrow> Inl IndexError)"

text \<open>
  A tensor where an integer is expected, as in the size \<^verbatim>\<open>(input_tokens[0], 1)\<close>:
  PyTorch converts an integer tensor with exactly one element to that element and
  raises \<^verbatim>\<open>TypeError\<close> for every other tensor; a negative size raises
  \<^verbatim>\<open>RuntimeError\<close>.
\<close>

definition as_size :: "int tensor \<Rightarrow> error + nat" where
  "as_size t =
     (case elems t of
        [v] \<Rightarrow> if 0 \<le> v then Inr (nat v) else Inl RuntimeError
      | _ \<Rightarrow> Inl TypeError)"

text \<open>
  \<^verbatim>\<open>torch.cat(tensors, dim=1)\<close>: the list must not be empty, and the tensors must have
  at least two dimensions and agree in every dimension but the second; the result
  holds, for each slice along dimension 0, the slices of the tensors one after another.
\<close>

definition cat1_compatible :: "'a tensor \<Rightarrow> 'a tensor \<Rightarrow> bool" where
  "cat1_compatible t u \<longleftrightarrow>
     (case (shape t, shape u) of
        (n # l # rest, n' # l' # rest') \<Rightarrow> n = n' \<and> rest = rest'
      | _ \<Rightarrow> False)"

definition cat1 :: "'a tensor list \<Rightarrow> error + 'a tensor" where
  "cat1 tensors =
     (case tensors of
        [] \<Rightarrow> Inl RuntimeError
      | t # ts \<Rightarrow>
          if list_all (cat1_compatible t) (t # ts)
          then (let n = shape t ! 0; rest = drop 2 (shape t)
                in Inr \<lparr>shape = n # sum_list (map (\<lambda>u. shape u ! 1) (t # ts)) # rest,
                         elems = concat (map (\<lambda>i. concat (map (\<lambda>u.
                                    take (shape u ! 1 * prod_list rest)
                                      (drop (i * (shape u ! 1 * prod_list rest)) (elems u))) (t # ts)))
                                  [0..<n])\<rparr>)
          else Inl RuntimeError)"

section \<open>The Seq2Seq orchestrator\<close>

text \<open>
  \<^verbatim>\<open>
  class Seq2Seq(torch.nn.Module):
      def __init__(self, encoder, decoder, sos_token_id, eos_token_id):
          self.eos_token_id = eos_token_id
          self.sos_token_id = sos_token_id
          self.encoder = encoder
          self.decoder = decoder
  \<close>
  The encoder and the decoder are the modules the object is built with, so they are
  fields of the record: functions that may raise and that may draw from the random
  source \<open>'s\<close> (dropout). To state how often and with which arguments the two modules
  are invoked and what is drawn, every invocation of a module and every draw is
  appended to the list \<open>calls\<close>, whether it returns or raises; a draw is recorded with
  its arguments and its outcome. The two id fields carry the prefix \<open>self_\<close>, since the vocabulary record
  has fields named \<open>sos_token_id\<close> and \<open>eos_token_id\<close> already.
\<close>

datatype 'f call =
  EncoderCall "int tensor"
| DecoderCall "int tensor" "'f tensor"
| SampleCall "'f tensor" real "error + int"

record ('s, 'f) world =
  rand :: 's
  calls :: "'f call list"

record ('s, 'f) seq2seq =
  encoder :: "int tensor \<Rightarrow> 's \<Rightarrow> (error + 'f tensor) \<times> 's"
  decoder :: "int tensor \<Rightarrow> 'f tensor \<Rightarrow> 's \<Rightarrow> (error + 'f tensor \<times> 'f tensor) \<times> 's"
  self_sos_token_id :: int
  self_eos_token_id :: int

definition call_encoder ::
  "('s, 'f) seq2seq \<Rightarrow> int tensor \<Rightarrow> ('s, 'f) world \<Rightarrow> (error + 'f tensor) \<times> ('s, 'f) world" where
  "call_encoder self X w =
     (case encoder self X (rand w) of
        (r, s) \<Rightarrow> (r, \<lparr>rand = s, calls = calls w @ [EncoderCall X]\<rparr>))"

definition call_decoder ::
  "('s, 'f) seq2seq \<Rightarrow> int tensor \<Rightarrow> 'f tensor \<Rightarrow> ('s, 'f) world
     \<Rightarrow> (error + 'f tensor \<times> 'f tensor) \<times> ('s, 'f) world" where
  "call_decoder self input_tokens hidden w =
     (case decoder self input_tokens hidden (rand w) of
        (r, s) \<Rightarrow> (r, \<lparr>rand = s, calls = calls w @ [DecoderCall input_tokens hidden]\<rparr>))"

definition call_sample ::
  "('f tensor \<Rightarrow> real \<Rightarrow> 's \<Rightarrow> (error + int) \<times> 's) \<Rightarrow> 'f tensor \<Rightarrow> real \<Rightarrow> ('s, 'f) world
     \<Rightarrow> (error + int) \<times> ('s, 'f) world" where
  "call_sample sample probs temperature w =
     (case sample probs temperature (rand w) of
        (r, s) \<Rightarrow> (r, \<lparr>rand = s, calls = calls w @ [SampleCall probs temperature r]\<rparr>))"

text \<open>The ids drawn and the decoder inputs that a list of calls records, in order.\<close>

fun sampled_tokens :: "'f call list \<Rightarrow> int list" where
  "sampled_tokens [] = []"
| "sampled_tokens (SampleCall probs temperature (Inr token) # cs) = token # sampled_tokens cs"
| "sampled_tokens (c # cs) = sampled_tokens cs"

fun decoder_inputs_of :: "'f call list \<Rightarrow> int tensor list" where
  "decoder_inputs_of [] = []"
| "decoder_inputs_of (DecoderCall input_tokens hidden # cs) = input_tokens # decoder_inputs_of cs"
| "decoder_inputs_of (c # cs) = decoder_inputs_of cs"

subsection \<open>Generation\<close>

text \<open>
  \<^verbatim>\<open>
  def forward(self, input_tokens, max_output_len, temperature=1.0):
      hidden = self.encoder(input_tokens.unsqueeze(0))
      decoder_input = torch.ones((1, 1), dtype=torch.long) * self.sos_token_id
      generated_seqs = []
      softmax = torch.nn.Softmax(dim=0)
      decoder_hidden = hidden
      for _ in range(max_output_len):
          output, decoder_hidden = self.decoder(decoder_input, decoder_hidden)
          probs = softmax(output.squeeze(0) / temperature)
          decoder_input = torch.multinomial(probs, 1)[0].item()
          generated_seqs.append(decoder_input)
          if decoder_input == self.eos_token_id:
              break
          decoder_input = torch.ones((1, 1), dtype=torch.long) * decoder_input
      return generated_seqs
  \<close>
  Dividing by the temperature, the softmax and the draw
  \<^verbatim>\<open>torch.multinomial(probs, 1)[0].item()\<close> are floating-point and random operations of
  the framework: together they are the parameter \<open>sample\<close>, which takes the squeezed
  logits, the temperature and the random source, and returns the drawn id or raises (as
  \<^verbatim>\<open>torch.multinomial\<close> does on probabilities that are not finite). The start batch is
  built after the encoder has run and before the loop; building a batch from an id
  that is no 64-bit integer raises.

  The loop is \<open>forward_loop\<close>; its first argument after the temperature counts the
  iterations that \<^verbatim>\<open>range(max_output_len)\<close> has left, and \<^verbatim>\<open>range\<close> of a number below
  one is empty.
\<close>

fun forward_loop ::
  "('f tensor \<Rightarrow> real \<Rightarrow> 's \<Rightarrow> (error + int) \<times> 's) \<Rightarrow> ('s, 'f) seq2seq \<Rightarrow> real \<Rightarrow> nat
     \<Rightarrow> int tensor \<Rightarrow> 'f tensor \<Rightarrow> int list \<Rightarrow> ('s, 'f) world
     \<Rightarrow> (error + int list) \<times> ('s, 'f) world" where
  "forward_loop sample self temperature 0 decoder_input decoder_hidden generated_seqs w =
     (Inr generated_seqs, w)"
| "forward_loop sample self temperature (Suc n) decoder_input decoder_hidden generated_seqs w =
     (case call_decoder self decoder_input decoder_hidden w of
        (Inl e, w1) \<Rightarrow> (Inl e, w1)
      | (Inr (output, decoder_hidden'), w1) \<Rightarrow>
          (case squeeze 0 output of
             Inl e \<Rightarrow> (Inl e, w1)
           | Inr squeezed \<Rightarrow>
               (case call_sample sample squeezed temperature w1 of
                  (Inl e, w2) \<Rightarrow> (Inl e, w2)
                | (Inr token, w2) \<Rightarrow>
                    if token = self_eos_token_id self
                    then (Inr (generated_seqs @ [token]), w2)
                    else (case ones_times [1, 1] token of
                            Inl e \<Rightarrow> (Inl e, w2)
                          | Inr next_input \<Rightarrow>
                              forward_loop sample self temperature n next_input
                                decoder_hidden' (generated_seqs @ [token]) w2))))"

definition forward ::
  "('f tensor \<Rightarrow> real \<Rightarrow> 's \<Rightarrow> (error + int) \<times> 's) \<Rightarrow> ('s, 'f) seq2seq \<Rightarrow> int tensor \<Rightarrow> int
     \<Rightarrow> real \<Rightarrow> ('s, 'f) world \<Rightarrow> (error + int list) \<times> ('s, 'f) world" where
  "forward sample self input_tokens max_output_len temperature w =
     (case unsqueeze 0 input_tokens of
        Inl e \<Rightarrow> (Inl e, w)
      | Inr X \<Rightarrow>
          (case call_encoder self X w of
             (Inl e, w1) \<Rightarrow> (Inl e, w1)
           | (Inr hidden, w1) \<Rightarrow>
               (case ones_times [1, 1] (self_sos_token_id self) of
                  Inl e \<Rightarrow> (Inl e, w1)
                | Inr decoder_input \<Rightarrow>
                    forward_loop sample self temperature (nat max_output_len)
                      decoder_input hidden [] w1)))"


subsection \<open>Teacher-forced training\<close>

text \<open>
  \<^verbatim>\<open>
  def forward_train(self, input_tokens, output_tokens):
      output_list = []
      hidden = self.encoder(input_tokens)
      decoder_input = torch.ones((input_tokens[0],1), dtype=torch.long) * self.sos_token_id
      decoder_hidden = hidden
      for token in range(hidden.shape[1]-1):
          output, decoder_hidden= self.decoder(decoder_inputs, decoder_hidden)
          decoder_inputs = output_tokens[:,token+1].unsqueeze(1)
          output_list.append(output)
      output = torch.cat(output_list, dim=1)
      return output
  \<close>
  The function has two local variables with similar names. \<^verbatim>\<open>decoder_input\<close> is
  assigned before the loop and never read. \<^verbatim>\<open>decoder_inputs\<close> is assigned only at the
  end of the loop body, so it is a local variable that is unbound until then: it is an
  \<open>option\<close> in the loop \<open>forward_train_loop\<close>, and reading it while it is \<open>None\<close> raises
  \<^verbatim>\<open>UnboundLocalError\<close>. The loop runs over \<^verbatim>\<open>range(hidden.shape[1]-1)\<close>.
\<close>

fun forward_train_loop ::
  "('s, 'f) seq2seq \<Rightarrow> int tensor \<Rightarrow> nat list \<Rightarrow> int tensor option \<Rightarrow> 'f tensor
     \<Rightarrow> 'f tensor list \<Rightarrow> ('s, 'f) world \<Rightarrow> (error + 'f tensor list) \<times> ('s, 'f) world" where
  "forward_train_loop self output_tokens [] decoder_inputs decoder_hidden output_list w =
     (Inr output_list, w)"
| "forward_train_loop self output_tokens (token # tokens) decoder_inputs decoder_hidden output_list w =
     (case decoder_inputs of
        None \<Rightarrow> (Inl UnboundLocalError, w)
      | Some decoder_inputs' \<Rightarrow>
          (case call_decoder self decoder_inputs' decoder_hidden w of
             (Inl e, w1) \<Rightarrow> (Inl e, w1)
           | (Inr (output, decoder_hidden'), w1) \<Rightarrow>
               (case select_col output_tokens (token + 1) of
                  Inl e \<Rightarrow> (Inl e, w1)
                | Inr column \<Rightarrow>
                    (case unsqueeze 1 column of
                       Inl e \<Rightarrow> (Inl e, w1)
                     | Inr next_inputs \<Rightarrow>
                         forward_train_loop self output_tokens tokens (Some next_inputs)
                           decoder_hidden' (output_list @ [output]) w1))))"

definition forward_train ::
  "('s, 'f) seq2seq \<Rightarrow> int tensor \<Rightarrow> int tensor \<Rightarrow> ('s, 'f) world
     \<Rightarrow> (error + 'f tensor) \<times> ('s, 'f) world" where
  "forward_train self input_tokens output_tokens w =
     (case call_encoder self input_tokens w of
        (Inl e, w1) \<Rightarrow> (Inl e, w1)
      | (Inr hidden, w1) \<Rightarrow>
          (case select0 input_tokens of
             Inl e \<Rightarrow> (Inl e, w1)
           | Inr row \<Rightarrow>
               (case as_size row of
                  Inl e \<Rightarrow> (Inl e, w1)
                | Inr n \<Rightarrow>
                    (case ones_times [n, 1] (self_sos_token_id self) of
                       Inl e \<Rightarrow> (Inl e, w1)
                     | Inr decoder_input \<Rightarrow>
                         (let decoder_hidden = hidden
                          in case shape_at hidden 1 of
                               Inl e \<Rightarrow> (Inl e, w1)
                             | Inr batch \<Rightarrow>
                                 (case forward_train_loop self output_tokens
                                         [0..<nat (int batch - 1)] None decoder_hidden [] w1 of
                                    (Inl e, w2) \<Rightarrow> (Inl e, w2)
                                  | (Inr output_list, w2) \<Rightarrow>
                                      (case cat1 output_list of
                                         Inl e \<Rightarrow> (Inl e, w2)
                                       | Inr output \<Rightarrow> (Inr output, w2))))))))"

subsection \<open>A small instance\<close>

text \<open>
  An instance on which the functions can be run: the random source is the list of the
  ids still to be drawn (once it is used up, every draw is the id \<open>0\<close>), the encoder
  returns one layer of hidden size one for each row of its input, and the decoder
  returns two logits for each row and passes the hidden state on. The start id is \<open>0\<close>
  and the end id is \<open>1\<close>.
\<close>

definition toy_sample :: "int tensor \<Rightarrow> real \<Rightarrow> int list \<Rightarrow> (error + int) \<times> int list" where
  "toy_sample probs temperature s =
     (case s of [] \<Rightarrow> (Inr 0, []) | token # s' \<Rightarrow> (Inr token, s'))"

definition toy_rows :: "int tensor \<Rightarrow> nat" where
  "toy_rows X = (case shape X of [] \<Rightarrow> 1 | n # rest \<Rightarrow> n)"

definition toy_encoder :: "int tensor \<Rightarrow> int list \<Rightarrow> (error + int tensor) \<times> int list" where
  "toy_encoder X s = (Inr \<lparr>shape = [1, toy_rows X, 1], elems = replicate (toy_rows X) 0\<rparr>, s)"

definition toy_decoder ::
  "int tensor \<Rightarrow> int tensor \<Rightarrow> int list \<Rightarrow> (error + int tensor \<times> int tensor) \<times> int list" where
  "toy_decoder X hidden s =
     (Inr (\<lparr>shape = [toy_rows X, 2], elems = replicate (toy_rows X * 2) 0\<rparr>, hidden), s)"

definition toy_model :: "(int list, int) seq2seq" where
  "toy_model = \<lparr>encoder = toy_encoder, decoder = toy_decoder,
                self_sos_token_id = 0, self_eos_token_id = 1\<rparr>"

definition toy_world :: "int list \<Rightarrow> (int list, int) world" where
  "toy_world draws = \<lparr>rand = draws, calls = []\<rparr>"

section \<open>Encoder and Decoder\<close>

text \<open>
  The notebook leaves the layers and the bodies of \<^verbatim>\<open>Encoder.forward\<close> and
  \<^verbatim>\<open>Decoder.forward\<close> as exercises: the source has their signatures and docstrings, and
  \<^verbatim>\<open>TODO\<close> in place of the code. The definitions of this section follow the component
  design of the spec. Floating-point numbers are reals here; the properties proved are
  about shapes.
\<close>

subsection \<open>Layers\<close>

text \<open>
  Modelled from the spec: dropout, "a stochastic zeroing of embedding activations, active
  only during training", whose code is not in the notebook. The layer draws one factor
  for every activation from the random source (zero or the rescaling factor while
  training, one otherwise); \<open>draw\<close> is that draw.
\<close>

fun dropout_vec :: "('s \<Rightarrow> real \<times> 's) \<Rightarrow> real list \<Rightarrow> 's \<Rightarrow> real list \<times> 's" where
  "dropout_vec draw [] s = ([], s)"
| "dropout_vec draw (x # xs) s =
     (case draw s of (factor, s1) \<Rightarrow>
        (case dropout_vec draw xs s1 of (ys, s2) \<Rightarrow> (factor * x # ys, s2)))"

fun dropout_all :: "('s \<Rightarrow> real \<times> 's) \<Rightarrow> real list list \<Rightarrow> 's \<Rightarrow> real list list \<times> 's" where
  "dropout_all draw [] s = ([], s)"
| "dropout_all draw (z # zs) s =
     (case dropout_vec draw z s of (z', s1) \<Rightarrow>
        (case dropout_all draw zs s1 of (zs', s2) \<Rightarrow> (z' # zs', s2)))"

text \<open>
  Modelled from the spec: the embedding "lookup table", whose code is not in the
  notebook. The table has one row for each id; an id outside the table is the
  "out-of-vocabulary index" that the framework reports.
\<close>

fun lookup_all :: "real list list \<Rightarrow> int list \<Rightarrow> error + real list list" where
  "lookup_all table [] = Inr []"
| "lookup_all table (t # ts) =
     (if 0 \<le> t \<and> nat t < length table
      then (case lookup_all table ts of Inl e \<Rightarrow> Inl e | Inr zs \<Rightarrow> Inr (table ! nat t # zs))
      else Inl IndexError)"

text \<open>
  Modelled from the spec: "a stack of N gated-recurrent layers (layer l consumes layer
  l-1's hidden sequence at every time step; layer 1 consumes the embeddings)", whose code
  is not in the notebook. The gated recurrent unit of one layer belongs to the
  framework: \<open>cell l x h\<close> is the new hidden vector of layer \<open>l\<close> for the input \<open>x\<close> and
  the hidden vector \<open>h\<close>. \<open>gru_step\<close> advances every layer by one time step, from the first
  layer up; \<open>gru_run\<close> does so for each element of a sequence in turn.
\<close>

fun gru_step ::
  "(nat \<Rightarrow> real list \<Rightarrow> real list \<Rightarrow> real list) \<Rightarrow> nat \<Rightarrow> real list \<Rightarrow> real list list
     \<Rightarrow> real list list" where
  "gru_step cell l x [] = []"
| "gru_step cell l x (h # hs) = (let h' = cell l x h in h' # gru_step cell (Suc l) h' hs)"

definition gru_run ::
  "(nat \<Rightarrow> real list \<Rightarrow> real list \<Rightarrow> real list) \<Rightarrow> real list list \<Rightarrow> real list list
     \<Rightarrow> real list list" where
  "gru_run cell xs hs = fold (gru_step cell 0) xs hs"

text \<open>
  Modelled from the spec: the layers of the "small feed-forward network (linear,
  nonlinearity, dropout, linear)", whose code is not in the notebook. A linear layer is
  its weight matrix, one row for each output, and its bias; an input whose length is
  not the length of the rows is a shape error.
\<close>

record linear =
  weight :: "real list list"
  bias :: "real list"

definition apply_linear :: "linear \<Rightarrow> real list \<Rightarrow> error + real list" where
  "apply_linear lin x =
     (if list_all (\<lambda>row. length row = length x) (weight lin) \<and>
         length (bias lin) = length (weight lin)
      then Inr (map2 (\<lambda>row b. sum_list (map2 (*) row x) + b) (weight lin) (bias lin))
      else Inl RuntimeError)"

definition fc_row ::
  "linear \<Rightarrow> ('s \<Rightarrow> real \<times> 's) \<Rightarrow> linear \<Rightarrow> real list \<Rightarrow> 's \<Rightarrow> (error + real list) \<times> 's" where
  "fc_row lin1 draw lin2 x s =
     (case apply_linear lin1 x of
        Inl e \<Rightarrow> (Inl e, s)
      | Inr y \<Rightarrow>
          (case dropout_vec draw (map (max 0) y) s of
             (y', s1) \<Rightarrow>
               (case apply_linear lin2 y' of
                  Inl e \<Rightarrow> (Inl e, s1)
                | Inr logits \<Rightarrow> (Inr logits, s1))))"

fun fc_rows ::
  "linear \<Rightarrow> ('s \<Rightarrow> real \<times> 's) \<Rightarrow> linear \<Rightarrow> real list list \<Rightarrow> 's
     \<Rightarrow> (error + real list list) \<times> 's" where
  "fc_rows lin1 draw lin2 [] s = (Inr [], s)"
| "fc_rows lin1 draw lin2 (x # xs) s =
     (case fc_row lin1 draw lin2 x s of
        (Inl e, s1) \<Rightarrow> (Inl e, s1)
      | (Inr logits, s1) \<Rightarrow>
          (case fc_rows lin1 draw lin2 xs s1 of
             (Inl e, s2) \<Rightarrow> (Inl e, s2)
           | (Inr rest, s2) \<Rightarrow> (Inr (logits # rest), s2)))"

subsection \<open>Hidden states as tensors\<close>

text \<open>
  A hidden state has the shape \<open>(N, B, H)\<close>. \<open>block B H t l b\<close> is the hidden vector of
  layer \<open>l\<close> for batch element \<open>b\<close>; \<open>stack_hidden N B H finals\<close> is the tensor whose
  vector for layer \<open>l\<close> and batch element \<open>b\<close> is \<open>finals ! b ! l\<close>.
\<close>

definition block :: "nat \<Rightarrow> nat \<Rightarrow> real tensor \<Rightarrow> nat \<Rightarrow> nat \<Rightarrow> real list" where
  "block B H t l b = take H (drop ((l * B + b) * H) (elems t))"

definition stack_hidden :: "nat \<Rightarrow> nat \<Rightarrow> nat \<Rightarrow> real list list list \<Rightarrow> real tensor" where
  "stack_hidden N B H finals =
     \<lparr>shape = [N, B, H],
      elems = concat (map (\<lambda>l. concat (map (\<lambda>b. finals ! b ! l) [0..<B])) [0..<N])\<rparr>"

subsection \<open>Encoder\<close>

record 's Encoder =
  hidden_size :: nat
  n_layers :: nat
  embedding :: "real list list"
  gru :: "nat \<Rightarrow> real list \<Rightarrow> real list \<Rightarrow> real list"
  dropout :: "'s \<Rightarrow> real \<times> 's"

text \<open>
  Modelled from the spec: the body of \<^verbatim>\<open>Encoder.forward\<close>, which is \<^verbatim>\<open>pass\<close> in the
  notebook. "Accepts a batch of padded integer token sequences (batch x length).
  Produces an embedding per token, applies dropout to the embeddings, then feeds the
  embedding sequence through a stack of N gated-recurrent layers. Returns only the
  final-time-step hidden state for every layer, shape (N x batch x hidden_dim); the
  per-step outputs are discarded." The recurrent layers start from the zero hidden
  state. An input that is not two-dimensional is a shape error.
\<close>

definition Encoder_forward ::
  "('s, 'z) Encoder_scheme \<Rightarrow> int tensor \<Rightarrow> 's \<Rightarrow> (error + real tensor) \<times> 's" where
  "Encoder_forward self X s =
     (case shape X of
        [B, L] \<Rightarrow>
          (case lookup_all (embedding self) (elems X) of
             Inl e \<Rightarrow> (Inl e, s)
           | Inr z \<Rightarrow>
               (case dropout_all (dropout self) z s of
                  (z', s') \<Rightarrow>
                    (let h0 = replicate (n_layers self) (replicate (hidden_size self) 0);
                         finals = map (\<lambda>b. gru_run (gru self) (take L (drop (b * L) z')) h0) [0..<B]
                     in (Inr (stack_hidden (n_layers self) B (hidden_size self) finals), s'))))
      | _ \<Rightarrow> (Inl RuntimeError, s))"

subsection \<open>Decoder\<close>

record 's Decoder = "'s Encoder" +
  fc_in :: linear
  fc_out :: linear
  output_size :: nat

text \<open>
  Modelled from the spec: the body of \<^verbatim>\<open>Decoder.forward\<close>, of which the notebook has
  the last two lines (\<^verbatim>\<open>output = self.fc(output)\<close> and the \<^verbatim>\<open>return\<close>) and, as a hint, the
  flattening \<^verbatim>\<open>hidden.permute(1, 0, 2).reshape(hidden.size(1), -1)\<close>. "Accepts a
  single-time-step batch of token ids (batch x 1) and a hidden state (N x batch x
  hidden_dim). Looks up the embedding, applies dropout, advances every recurrent layer by
  one step, producing an updated hidden state. Projects the concatenation of all layers'
  updated hidden states (flattened to batch x (N * hidden_dim)) through a small
  feed-forward network to produce logits over the target vocabulary. Returns (logits,
  updated hidden state)." The recurrent layers advance once for each position of the
  input, which is one step for a batch of shape \<open>(B, 1)\<close>. A hidden state of another shape
  than \<open>(N, B, H)\<close> is a shape error.
\<close>

definition Decoder_forward ::
  "'s Decoder \<Rightarrow> int tensor \<Rightarrow> real tensor \<Rightarrow> 's \<Rightarrow> (error + real tensor \<times> real tensor) \<times> 's" where
  "Decoder_forward self input_tokens hidden s =
     (case shape input_tokens of
        [B, L] \<Rightarrow>
          if shape hidden \<noteq> [n_layers self, B, hidden_size self] then (Inl RuntimeError, s)
          else
            (case lookup_all (embedding self) (elems input_tokens) of
               Inl e \<Rightarrow> (Inl e, s)
             | Inr z \<Rightarrow>
                 (case dropout_all (dropout self) z s of
                    (z', s1) \<Rightarrow>
                      (let N = n_layers self; H = hidden_size self;
                           finals = map (\<lambda>b. gru_run (gru self) (take L (drop (b * L) z'))
                                             (map (\<lambda>l. block B H hidden l b) [0..<N])) [0..<B];
                           hidden' = stack_hidden N B H finals;
                           flat = map (\<lambda>b. concat (map (\<lambda>l. block B H hidden' l b) [0..<N])) [0..<B]
                       in case fc_rows (fc_in self) (dropout self) (fc_out self) flat s1 of
                            (Inl e, s2) \<Rightarrow> (Inl e, s2)
                          | (Inr rows, s2) \<Rightarrow>
                              (Inr (\<lparr>shape = [B, length (weight (fc_out self))],
                                     elems = concat rows\<rparr>, hidden'), s2))))
      | _ \<Rightarrow> (Inl RuntimeError, s))"

definition fc_fits :: "'s Decoder \<Rightarrow> bool" where
  "fc_fits self \<longleftrightarrow>
     list_all (\<lambda>row. length row = n_layers self * hidden_size self) (weight (fc_in self)) \<and>
     length (bias (fc_in self)) = length (weight (fc_in self)) \<and>
     list_all (\<lambda>row. length row = length (weight (fc_in self))) (weight (fc_out self)) \<and>
     length (bias (fc_out self)) = length (weight (fc_out self)) \<and>
     length (weight (fc_out self)) = output_size self"

subsection \<open>A small encoder and decoder\<close>

text \<open>
  Two layers of hidden size one over a vocabulary of two ids: the recurrent unit adds
  the first input to the hidden vector, dropout is inactive, and the decoder has three
  output ids.
\<close>

definition toy_cell :: "nat \<Rightarrow> real list \<Rightarrow> real list \<Rightarrow> real list" where
  "toy_cell l x h = map (\<lambda>v. v + (case x of [] \<Rightarrow> 0 | a # rest \<Rightarrow> a)) h"

definition toy_Encoder :: "unit Encoder" where
  "toy_Encoder = \<lparr>hidden_size = 1, n_layers = 2, embedding = [ [1], [2]], gru = toy_cell,
                  dropout = (\<lambda>s. (1, s))\<rparr>"

definition toy_Decoder :: "unit Decoder" where
  "toy_Decoder = \<lparr>hidden_size = 1, n_layers = 2, embedding = [ [1], [2]], gru = toy_cell,
                  dropout = (\<lambda>s. (1, s)),
                  fc_in = \<lparr>weight = [ [1, 1]], bias = [0]\<rparr>,
                  fc_out = \<lparr>weight = [ [1], [2], [3]], bias = [0, 0, 0]\<rparr>,
                  output_size = 3\<rparr>"




section \<open>Properties of the tokenizer\<close>

lemma sorted_wrap: "sorted (map (\<lambda>c. [c]) xs) = sorted (xs :: nat list)"
  by (induction xs) auto

lemma sort_listing:
  assumes "set xs = (\<lambda>c. [c]) ` C" "distinct xs" "finite C"
  shows "sort xs = map (\<lambda>c. [c]) (sorted_list_of_set (C :: nat set))"
proof (rule sorted_distinct_set_unique)
  show "sorted (sort xs)" by simp
  show "distinct (sort xs)" using assms by simp
  show "sorted (map (\<lambda>c. [c]) (sorted_list_of_set C))" by (simp add: sorted_wrap)
  show "distinct (map (\<lambda>c. [c]) (sorted_list_of_set C))" by (simp add: distinct_map inj_on_def)
  show "set (sort xs) = set (map (\<lambda>c. [c]) (sorted_list_of_set C))" using assms by simp
qed

lemma vocab_list_eq:
  assumes "lists_set list_of (corpus_set sents)"
  shows "vocab_list list_of sents =
     map (\<lambda>c. [c]) (sorted_list_of_set (set (concat sents))) @ specials"
proof -
  have "sort (list_of (corpus_set sents))
      = map (\<lambda>c. [c]) (sorted_list_of_set (set (concat sents)))"
    by (rule sort_listing) (use assms in \<open>simp_all add: lists_set_def corpus_set_def\<close>)
  then show ?thesis by (simp add: vocab_list_def specials_def)
qed

lemma distinct_vocab:
  "distinct (map (\<lambda>c. [c]) (sorted_list_of_set (set (concat sents))) @ specials)"
  by (auto simp: distinct_map inj_on_def specials_def str_of_def)

lemma fold_stoi_notin:
  "t \<notin> set v \<Longrightarrow> fold (\<lambda>(i, token) d. d(token \<mapsto> int i)) (enumerate n v) d0 t = d0 t"
  by (induction v arbitrary: n d0) auto

lemma fold_stoi_nth:
  "distinct v \<Longrightarrow> i < length v \<Longrightarrow>
   fold (\<lambda>(i, token) d. d(token \<mapsto> int i)) (enumerate n v) d0 (v ! i) = Some (int (n + i))"
proof (induction v arbitrary: n d0 i)
  case Nil then show ?case by simp
next
  case (Cons x xs)
  show ?case
  proof (cases i)
    case 0
    have "fold (\<lambda>(i, token) d. d(token \<mapsto> int i)) (enumerate (Suc n) xs) (d0(x \<mapsto> int n)) x
            = (d0(x \<mapsto> int n)) x"
      using Cons.prems by (intro fold_stoi_notin) simp
    also have "\<dots> = Some (int n)" by simp
    finally show ?thesis using 0 by (simp del: fun_upd_apply)
  next
    case (Suc j)
    with Cons.prems Cons.IH[of j "Suc n" "d0(x \<mapsto> int n)"] show ?thesis
      by (simp del: fun_upd_apply)
  qed
qed

lemma fold_itos:
  "fold (\<lambda>(i, token) d. d(int i \<mapsto> token)) (enumerate n v) d0 j =
     (if int n \<le> j \<and> j < int (n + length v) then Some (v ! (nat j - n)) else d0 j)"
proof (induction v arbitrary: n d0)
  case Nil then show ?case by auto
next
  case (Cons x xs)
  have "fold (\<lambda>(i, token) d. d(int i \<mapsto> token)) (enumerate n (x # xs)) d0 j
      = fold (\<lambda>(i, token) d. d(int i \<mapsto> token)) (enumerate (Suc n) xs) (d0(int n \<mapsto> x)) j"
    by simp
  also have "\<dots> = (if int (Suc n) \<le> j \<and> j < int (Suc n + length xs)
                    then Some (xs ! (nat j - Suc n)) else (d0(int n \<mapsto> x)) j)"
    by (rule Cons.IH)
  also have "\<dots> = (if int n \<le> j \<and> j < int (n + length (x # xs))
                    then Some ((x # xs) ! (nat j - n)) else d0 j)"
  proof (cases "j = int n")
    case True then show ?thesis by simp
  next
    case False
    show ?thesis
    proof (cases "int (Suc n) \<le> j \<and> j < int (Suc n + length xs)")
      case True
      then have "nat j - n = Suc (nat j - Suc n)" by linarith
      with True show ?thesis by simp
    next
      case False
      with \<open>j \<noteq> int n\<close> show ?thesis by auto
    qed
  qed
  finally show ?case .
qed

lemma dict_stoi_nth: "distinct v \<Longrightarrow> i < length v \<Longrightarrow> dict_stoi v (v ! i) = Some (int i)"
  using fold_stoi_nth[of v i 0 Map.empty] by (simp add: dict_stoi_def)

lemma dict_stoi_notin: "t \<notin> set v \<Longrightarrow> dict_stoi v t = None"
  using fold_stoi_notin[of t v 0 Map.empty] by (simp add: dict_stoi_def)

lemma dict_itos_eq:
  "dict_itos v j = (if 0 \<le> j \<and> j < int (length v) then Some (v ! nat j) else None)"
  using fold_itos[of 0 v Map.empty j] by (simp add: dict_itos_def)

lemma length_ref_vocab: "length (ref_vocab sents) = length (sorted_chars sents) + 3"
  by (simp add: ref_vocab_def specials_def)

lemma distinct_ref_vocab: "distinct (ref_vocab sents)"
  unfolding ref_vocab_def sorted_chars_def by (rule distinct_vocab)

lemma ref_vocab_nth_char:
  "i < length (sorted_chars sents) \<Longrightarrow> ref_vocab sents ! i = [sorted_chars sents ! i]"
  by (simp add: ref_vocab_def nth_append)

lemma ref_vocab_nth_special:
  "ref_vocab sents ! (length (sorted_chars sents)) = str_of ''<sos>''"
  "ref_vocab sents ! (length (sorted_chars sents) + 1) = str_of ''<eos>''"
  "ref_vocab sents ! (length (sorted_chars sents) + 2) = str_of ''<unk>''"
  by (simp_all add: ref_vocab_def nth_append specials_def)

lemma set_ref_vocab:
  "set (ref_vocab sents) = corpus_set sents \<union> {str_of ''<sos>'', str_of ''<eos>'', str_of ''<unk>''}"
  by (auto simp: ref_vocab_def sorted_chars_def corpus_set_def specials_def)

lemma stoi_special:
  "dict_stoi (ref_vocab sents) (str_of ''<sos>'') = Some (int (length (sorted_chars sents)))"
  "dict_stoi (ref_vocab sents) (str_of ''<eos>'') = Some (int (length (sorted_chars sents)) + 1)"
  "dict_stoi (ref_vocab sents) (str_of ''<unk>'') = Some (int (length (sorted_chars sents)) + 2)"
proof -
  let ?k = "length (sorted_chars sents)"
  have "dict_stoi (ref_vocab sents) (ref_vocab sents ! ?k) = Some (int ?k)"
    by (rule dict_stoi_nth[OF distinct_ref_vocab]) (simp add: length_ref_vocab)
  then show "dict_stoi (ref_vocab sents) (str_of ''<sos>'') = Some (int ?k)"
    by (simp only: ref_vocab_nth_special)
  have "dict_stoi (ref_vocab sents) (ref_vocab sents ! (?k + 1)) = Some (int (?k + 1))"
    by (rule dict_stoi_nth[OF distinct_ref_vocab]) (simp add: length_ref_vocab)
  then show "dict_stoi (ref_vocab sents) (str_of ''<eos>'') = Some (int ?k + 1)"
    by (simp only: ref_vocab_nth_special of_nat_add of_nat_1)
  have "dict_stoi (ref_vocab sents) (ref_vocab sents ! (?k + 2)) = Some (int (?k + 2))"
    by (rule dict_stoi_nth[OF distinct_ref_vocab]) (simp add: length_ref_vocab)
  then show "dict_stoi (ref_vocab sents) (str_of ''<unk>'') = Some (int ?k + 2)"
    by (simp only: ref_vocab_nth_special of_nat_add of_nat_numeral)
qed

lemma ref_tokenizer_sel:
  "stoi (ref_tokenizer sents) = dict_stoi (ref_vocab sents)"
  "itos (ref_tokenizer sents) = dict_itos (ref_vocab sents)"
  "sos_token_id (ref_tokenizer sents) = int (length (sorted_chars sents))"
  "eos_token_id (ref_tokenizer sents) = int (length (sorted_chars sents)) + 1"
  "unk_token_id (ref_tokenizer sents) = int (length (sorted_chars sents)) + 2"
  by (simp_all add: ref_tokenizer_def)

lemma build_tokenizer_eq:
  assumes "lists_set list_of (corpus_set sents)"
  shows "build_tokenizer list_of sents = Inr (ref_tokenizer sents)"
proof -
  have "vocab_list list_of sents = ref_vocab sents"
    unfolding ref_vocab_def sorted_chars_def
    by (rule vocab_list_eq[OF assms])
  then show ?thesis
    by (simp add: build_tokenizer_def Let_def getitem_def stoi_special ref_tokenizer_def)
qed

lemma dict_stoi_Some_iff:
  assumes "distinct v"
  shows "dict_stoi v t = Some j \<longleftrightarrow> (\<exists>i<length v. v ! i = t \<and> j = int i)"
proof (cases "t \<in> set v")
  case True
  then obtain i where i: "i < length v" "v ! i = t" by (auto simp: in_set_conv_nth)
  have eq: "dict_stoi v t = Some (int i)" using dict_stoi_nth[OF assms i(1)] i(2) by simp
  have uniq: "i' = i" if "i' < length v" "v ! i' = t" for i'
    using that i nth_eq_iff_index_eq[OF assms, of i' i] by simp
  show ?thesis
  proof
    assume "dict_stoi v t = Some j"
    with eq have "j = int i" by simp
    with i show "\<exists>i<length v. v ! i = t \<and> j = int i" by blast
  next
    assume "\<exists>i<length v. v ! i = t \<and> j = int i"
    then obtain i' where "i' < length v" "v ! i' = t" "j = int i'" by blast
    with uniq[of i'] eq show "dict_stoi v t = Some j" by simp
  qed
next
  case False
  then have "dict_stoi v t = None" by (rule dict_stoi_notin)
  moreover have "\<not> (\<exists>i<length v. v ! i = t \<and> j = int i)" using False by auto
  ultimately show ?thesis by simp
qed

lemma dom_dict_stoi: "distinct v \<Longrightarrow> dom (dict_stoi v) = set v"
proof (intro set_eqI iffI)
  fix t assume "distinct v" "t \<in> dom (dict_stoi v)"
  then obtain j where "dict_stoi v t = Some j" by blast
  with \<open>distinct v\<close> show "t \<in> set v" by (auto simp only: dict_stoi_Some_iff nth_mem)
next
  fix t assume d: "distinct v" and "t \<in> set v"
  then obtain i where "i < length v" "v ! i = t" by (auto simp: in_set_conv_nth)
  with dict_stoi_nth[OF d, of i] show "t \<in> dom (dict_stoi v)" by auto
qed

lemma ran_dict_stoi: "distinct v \<Longrightarrow> ran (dict_stoi v) = {0..<int (length v)}"
proof (intro set_eqI iffI)
  fix j assume d: "distinct v" and "j \<in> ran (dict_stoi v)"
  then obtain t where "dict_stoi v t = Some j" unfolding ran_def by blast
  then obtain i where "i < length v" "j = int i" using d by (auto simp only: dict_stoi_Some_iff)
  then show "j \<in> {0..<int (length v)}" by simp
next
  fix j assume d: "distinct v" and j: "j \<in> {0..<int (length v)}"
  then have "nat j < length v" "int (nat j) = j" by auto
  with dict_stoi_nth[OF d, of "nat j"] have "dict_stoi v (v ! nat j) = Some j" by simp
  then show "j \<in> ran (dict_stoi v)" unfolding ran_def by blast
qed

lemma inj_dict_stoi: "distinct v \<Longrightarrow> inj_on (dict_stoi v) (set v)"
proof (rule inj_onI)
  fix x y assume d: "distinct v" and x: "x \<in> set v" and y: "y \<in> set v"
    and e: "dict_stoi v x = dict_stoi v y"
  from x obtain i where i: "i < length v" "v ! i = x" by (auto simp: in_set_conv_nth)
  then have "dict_stoi v x = Some (int i)" using dict_stoi_nth[OF d, of i] by simp
  with e have "dict_stoi v y = Some (int i)" by simp
  then have "v ! i = y" using d by (auto simp only: dict_stoi_Some_iff of_nat_eq_iff)
  with i show "x = y" by simp
qed

lemma dom_dict_itos: "dom (dict_itos v) = {0..<int (length v)}"
proof (intro set_eqI iffI)
  fix j assume "j \<in> dom (dict_itos v)"
  then show "j \<in> {0..<int (length v)}" by (simp add: dom_def dict_itos_eq split: if_splits)
next
  fix j assume "j \<in> {0..<int (length v)}"
  then show "j \<in> dom (dict_itos v)" by (simp add: dom_def dict_itos_eq)
qed

lemma dict_itos_nth: "i < length v \<Longrightarrow> dict_itos v (int i) = Some (v ! i)"
  by (simp add: dict_itos_eq)

lemma stoi_char:
  assumes "i < length (sorted_chars sents)"
  shows "dict_stoi (ref_vocab sents) [sorted_chars sents ! i] = Some (int i)"
proof -
  have "dict_stoi (ref_vocab sents) (ref_vocab sents ! i) = Some (int i)"
    by (rule dict_stoi_nth[OF distinct_ref_vocab]) (use assms in \<open>simp add: length_ref_vocab\<close>)
  then show ?thesis using assms by (simp add: ref_vocab_nth_char)
qed

lemma itos_char:
  assumes "i < length (sorted_chars sents)"
  shows "dict_itos (ref_vocab sents) (int i) = Some [sorted_chars sents ! i]"
  using assms by (simp add: dict_itos_nth length_ref_vocab ref_vocab_nth_char)

lemma itos_special:
  "dict_itos (ref_vocab sents) (int (length (sorted_chars sents))) = Some (str_of ''<sos>'')"
  "dict_itos (ref_vocab sents) (int (length (sorted_chars sents)) + 1) = Some (str_of ''<eos>'')"
  "dict_itos (ref_vocab sents) (int (length (sorted_chars sents)) + 2) = Some (str_of ''<unk>'')"
proof -
  let ?k = "length (sorted_chars sents)"
  show "dict_itos (ref_vocab sents) (int ?k) = Some (str_of ''<sos>'')"
    by (simp add: dict_itos_nth length_ref_vocab ref_vocab_nth_special)
  have "dict_itos (ref_vocab sents) (int (?k + 1)) = Some (ref_vocab sents ! (?k + 1))"
    by (rule dict_itos_nth) (simp add: length_ref_vocab)
  then show "dict_itos (ref_vocab sents) (int ?k + 1) = Some (str_of ''<eos>'')"
    by (simp only: ref_vocab_nth_special of_nat_add of_nat_1)
  have "dict_itos (ref_vocab sents) (int (?k + 2)) = Some (ref_vocab sents ! (?k + 2))"
    by (rule dict_itos_nth) (simp add: length_ref_vocab)
  then show "dict_itos (ref_vocab sents) (int ?k + 2) = Some (str_of ''<unk>'')"
    by (simp only: ref_vocab_nth_special of_nat_add of_nat_numeral)
qed

text \<open>
  Claim C6. For a fixed corpus \<open>build_tokenizer\<close> is deterministic: whatever order the
  set of characters is listed in, the result is the same. The result is the reference
  layout: the distinct characters of the corpus have the ids \<open>0..k-1\<close> in increasing
  character order, the start, end and unknown tokens have the ids \<open>k\<close>, \<open>k+1\<close> and
  \<open>k+2\<close>; the ids are exactly \<open>0..k+2\<close>, the two tables are inverse to each other on
  them, and the three reserved ids are pairwise distinct.
\<close>

theorem build_tokenizer_deterministic_layout:
  assumes "lists_set list_of (corpus_set sents)" and "lists_set list_of' (corpus_set sents)"
  shows "build_tokenizer list_of' sents = build_tokenizer list_of sents \<and>
    (case build_tokenizer list_of sents of
       Inl e \<Rightarrow> False
     | Inr v \<Rightarrow>
          (\<forall>i<length (sorted_chars sents).
              stoi v [sorted_chars sents ! i] = Some (int i) \<and>
              itos v (int i) = Some [sorted_chars sents ! i]) \<and>
          sos_token_id v = int (length (sorted_chars sents)) \<and>
          eos_token_id v = int (length (sorted_chars sents)) + 1 \<and>
          unk_token_id v = int (length (sorted_chars sents)) + 2 \<and>
          stoi v (str_of ''<sos>'') = Some (sos_token_id v) \<and>
          stoi v (str_of ''<eos>'') = Some (eos_token_id v) \<and>
          stoi v (str_of ''<unk>'') = Some (unk_token_id v) \<and>
          itos v (sos_token_id v) = Some (str_of ''<sos>'') \<and>
          itos v (eos_token_id v) = Some (str_of ''<eos>'') \<and>
          itos v (unk_token_id v) = Some (str_of ''<unk>'') \<and>
          dom (itos v) = {0..<int (length (sorted_chars sents)) + 3} \<and>
          ran (stoi v) = {0..<int (length (sorted_chars sents)) + 3} \<and>
          dom (stoi v) = corpus_set sents \<union> {str_of ''<sos>'', str_of ''<eos>'', str_of ''<unk>''} \<and>
          inj_on (stoi v) (dom (stoi v)) \<and>
          sos_token_id v \<noteq> eos_token_id v \<and> sos_token_id v \<noteq> unk_token_id v \<and>
          eos_token_id v \<noteq> unk_token_id v)"
proof -
  let ?v = "ref_tokenizer sents" and ?k = "length (sorted_chars sents)"
  have len: "int (length (ref_vocab sents)) = int ?k + 3"
    by (simp add: length_ref_vocab)
  have dom_s: "dom (stoi ?v) = corpus_set sents \<union> {str_of ''<sos>'', str_of ''<eos>'', str_of ''<unk>''}"
    by (simp only: ref_tokenizer_sel dom_dict_stoi[OF distinct_ref_vocab] set_ref_vocab)
  have inj: "inj_on (stoi ?v) (dom (stoi ?v))"
    by (simp only: ref_tokenizer_sel dom_dict_stoi[OF distinct_ref_vocab]
          inj_dict_stoi[OF distinct_ref_vocab])
  have ran_s: "ran (stoi ?v) = {0..<int ?k + 3}"
    by (simp only: ref_tokenizer_sel ran_dict_stoi[OF distinct_ref_vocab] len)
  have dom_i: "dom (itos ?v) = {0..<int ?k + 3}"
    by (simp only: ref_tokenizer_sel dom_dict_itos len)
  have chars: "\<forall>i<?k. stoi ?v [sorted_chars sents ! i] = Some (int i) \<and>
      itos ?v (int i) = Some [sorted_chars sents ! i]"
    by (simp add: ref_tokenizer_sel stoi_char itos_char)
  have ids: "sos_token_id ?v = int ?k" "eos_token_id ?v = int ?k + 1" "unk_token_id ?v = int ?k + 2"
    by (simp_all only: ref_tokenizer_sel)
  have s: "stoi ?v (str_of ''<sos>'') = Some (sos_token_id ?v)"
      "stoi ?v (str_of ''<eos>'') = Some (eos_token_id ?v)"
      "stoi ?v (str_of ''<unk>'') = Some (unk_token_id ?v)"
    by (simp_all only: ref_tokenizer_sel stoi_special)
  have i: "itos ?v (sos_token_id ?v) = Some (str_of ''<sos>'')"
      "itos ?v (eos_token_id ?v) = Some (str_of ''<eos>'')"
      "itos ?v (unk_token_id ?v) = Some (str_of ''<unk>'')"
    by (simp_all only: ref_tokenizer_sel itos_special)
  have ne: "sos_token_id ?v \<noteq> eos_token_id ?v" "sos_token_id ?v \<noteq> unk_token_id ?v"
      "eos_token_id ?v \<noteq> unk_token_id ?v"
    by (simp_all add: ref_tokenizer_sel)
  have same: "build_tokenizer list_of' sents = build_tokenizer list_of sents"
    by (simp only: build_tokenizer_eq[OF assms(1)] build_tokenizer_eq[OF assms(2)])
  show ?thesis
    unfolding build_tokenizer_eq[OF assms(1)] build_tokenizer_eq[OF assms(2)] sum.case
    by (intro conjI refl chars ids s i dom_i ran_s dom_s inj ne)
qed

lemma tokenize_letters_eq:
  "tokenize_letters v s acc =
     (if \<forall>c\<in>set s. stoi v [c] \<noteq> None
      then Inr (acc @ map (\<lambda>c. the (stoi v [c])) s) else Inl KeyError)"
  by (induction s arbitrary: acc) (auto simp: getitem_def split: option.splits)

lemma tokenize_sents_eq:
  "tokenize_sents v sents acc =
     (if \<forall>s\<in>set sents. \<forall>c\<in>set s. stoi v [c] \<noteq> None
      then Inr (acc @ map (\<lambda>s. sos_token_id v # map (\<lambda>c. the (stoi v [c])) s @ [eos_token_id v]) sents)
      else Inl KeyError)"
proof (induction sents arbitrary: acc)
  case Nil
  then show ?case by simp
next
  case (Cons s sents)
  show ?case
    by (simp add: tokenize_letters_eq Cons.IH)
qed

lemma itos_all_eq:
  "itos_all v ids =
     (if \<forall>i\<in>set ids. itos v i \<noteq> None then Inr (map (\<lambda>i. the (itos v i)) ids) else Inl KeyError)"
  by (induction ids) (auto simp: getitem_def split: option.splits)

lemma set_sorted_chars: "set (sorted_chars corpus) = set (concat corpus)"
  unfolding sorted_chars_def by (rule set_sorted_list_of_set) simp

lemma stoi_ref_seen:
  assumes "c \<in> set (concat corpus)"
  shows "\<exists>i<length (sorted_chars corpus).
           stoi (ref_tokenizer corpus) [c] = Some (int i) \<and> sorted_chars corpus ! i = c"
proof -
  from assms have "c \<in> set (sorted_chars corpus)" by (simp only: set_sorted_chars)
  then obtain i where i: "i < length (sorted_chars corpus)" "sorted_chars corpus ! i = c"
    by (auto simp: in_set_conv_nth)
  with stoi_char[OF i(1)] show ?thesis by (auto simp: ref_tokenizer_sel)
qed

lemma stoi_ref_unseen:
  assumes "c \<notin> set (concat corpus)"
  shows "stoi (ref_tokenizer corpus) [c] = None"
proof -
  have "[c] \<notin> set (ref_vocab corpus)"
    using assms by (auto simp: set_ref_vocab corpus_set_def str_of_def)
  then show ?thesis by (simp add: ref_tokenizer_sel dict_stoi_notin)
qed

lemma stoi_ref_defined_iff:
  "stoi (ref_tokenizer corpus) [c] \<noteq> None \<longleftrightarrow> c \<in> set (concat corpus)"
proof (cases "c \<in> set (concat corpus)")
  case True
  from stoi_ref_seen[OF True] obtain i where "stoi (ref_tokenizer corpus) [c] = Some (int i)"
    by blast
  with True show ?thesis by (simp del: set_concat)
next
  case False
  from stoi_ref_unseen[OF False] False show ?thesis by (simp del: set_concat)
qed

lemma char_id_bound:
  assumes "c \<in> set (concat corpus)"
  shows "0 \<le> the (stoi (ref_tokenizer corpus) [c])"
    and "the (stoi (ref_tokenizer corpus) [c]) < int (length (sorted_chars corpus))"
    and "itos (ref_tokenizer corpus) (the (stoi (ref_tokenizer corpus) [c])) = Some [c]"
proof -
  from stoi_ref_seen[OF assms] obtain i where i: "i < length (sorted_chars corpus)"
    "stoi (ref_tokenizer corpus) [c] = Some (int i)" "sorted_chars corpus ! i = c" by blast
  show "0 \<le> the (stoi (ref_tokenizer corpus) [c])" using i by simp
  show "the (stoi (ref_tokenizer corpus) [c]) < int (length (sorted_chars corpus))" using i by simp
  show "itos (ref_tokenizer corpus) (the (stoi (ref_tokenizer corpus) [c])) = Some [c]"
    using i itos_char[OF i(1)] by (simp add: ref_tokenizer_sel)
qed

lemma tokenize_ref:
  "tokenize sents (ref_tokenizer corpus) =
     (if \<forall>s\<in>set sents. \<forall>c\<in>set s. c \<in> set (concat corpus)
      then Inr (map (\<lambda>s. sos_token_id (ref_tokenizer corpus)
                  # map (\<lambda>c. the (stoi (ref_tokenizer corpus) [c])) s
                  @ [eos_token_id (ref_tokenizer corpus)]) sents)
      else Inl KeyError)"
  by (simp only: tokenize_def tokenize_sents_eq stoi_ref_defined_iff append_Nil)

lemma char_id_less:
  assumes "\<forall>c\<in>set s. c \<in> set (concat corpus)" and "i \<in> set (map (\<lambda>c. the (stoi (ref_tokenizer corpus) [c])) s)"
  shows "i < int (length (sorted_chars corpus))"
proof -
  from assms(2) obtain c where "c \<in> set s" "i = the (stoi (ref_tokenizer corpus) [c])"
    by (auto simp del: set_concat)
  with assms(1) char_id_bound(2)[of c corpus] show ?thesis by blast
qed

lemma tokenized_row_no_unk:
  assumes "\<forall>c\<in>set s. c \<in> set (concat corpus)"
  shows "unk_token_id (ref_tokenizer corpus)
           \<notin> set (sos_token_id (ref_tokenizer corpus)
                  # map (\<lambda>c. the (stoi (ref_tokenizer corpus) [c])) s
                  @ [eos_token_id (ref_tokenizer corpus)])"
proof
  let ?ids = "map (\<lambda>c. the (stoi (ref_tokenizer corpus) [c])) s"
  assume "unk_token_id (ref_tokenizer corpus)
           \<in> set (sos_token_id (ref_tokenizer corpus) # ?ids @ [eos_token_id (ref_tokenizer corpus)])"
  then consider "unk_token_id (ref_tokenizer corpus) = sos_token_id (ref_tokenizer corpus)"
    | "unk_token_id (ref_tokenizer corpus) \<in> set ?ids"
    | "unk_token_id (ref_tokenizer corpus) = eos_token_id (ref_tokenizer corpus)"
    by auto
  then show False
  proof cases
    case 1 then show False by (simp add: ref_tokenizer_sel(3,5))
  next
    case 2
    from char_id_less[OF assms 2] show False by (simp add: ref_tokenizer_sel(5))
  next
    case 3 then show False by (simp add: ref_tokenizer_sel(4,5))
  qed
qed

text \<open>
  Claim C5. With a vocabulary built from a corpus, tokenizing sentences of which one
  contains a character that does not occur in the corpus raises \<^verbatim>\<open>KeyError\<close>; no
  unknown id is substituted. When every character occurs in the corpus the call returns.
  The unknown token has an id in every vocabulary, in both tables, and no list that
  \<open>tokenize\<close> returns contains that id.
\<close>

theorem tokenize_unseen_raises_KeyError:
  assumes "lists_set list_of (corpus_set corpus)"
  shows "case build_tokenizer list_of corpus of
           Inl e \<Rightarrow> False
         | Inr v \<Rightarrow>
             ((\<exists>sent\<in>set sents. \<exists>c\<in>set sent. c \<notin> set (concat corpus))
                 \<longrightarrow> tokenize sents v = Inl KeyError) \<and>
             ((\<forall>sent\<in>set sents. \<forall>c\<in>set sent. c \<in> set (concat corpus))
                 \<longrightarrow> (\<exists>out. tokenize sents v = Inr out)) \<and>
             (\<forall>out. tokenize sents v = Inr out \<longrightarrow> (\<forall>r\<in>set out. unk_token_id v \<notin> set r)) \<and>
             stoi v (str_of ''<unk>'') = Some (unk_token_id v) \<and>
             itos v (unk_token_id v) = Some (str_of ''<unk>'')"
proof -
  let ?v = "ref_tokenizer corpus"
  have a: "(\<exists>sent\<in>set sents. \<exists>c\<in>set sent. c \<notin> set (concat corpus))
             \<longrightarrow> tokenize sents ?v = Inl KeyError"
    by (auto simp: tokenize_ref simp del: set_concat)
  have b: "(\<forall>sent\<in>set sents. \<forall>c\<in>set sent. c \<in> set (concat corpus))
             \<longrightarrow> (\<exists>out. tokenize sents ?v = Inr out)"
    by (simp add: tokenize_ref del: set_concat)
  have c: "\<forall>out. tokenize sents ?v = Inr out \<longrightarrow> (\<forall>r\<in>set out. unk_token_id ?v \<notin> set r)"
  proof (intro allI impI ballI)
    fix out r assume out: "tokenize sents ?v = Inr out" and r: "r \<in> set out"
    from out have seen: "\<forall>s\<in>set sents. \<forall>c\<in>set s. c \<in> set (concat corpus)"
      and eq: "out = map (\<lambda>s. sos_token_id ?v # map (\<lambda>c. the (stoi ?v [c])) s @ [eos_token_id ?v]) sents"
      by (simp_all add: tokenize_ref del: set_concat split: if_splits)
    from r eq obtain s where s: "s \<in> set sents"
      and "r = sos_token_id ?v # map (\<lambda>c. the (stoi ?v [c])) s @ [eos_token_id ?v]"
      by auto
    with tokenized_row_no_unk[of s corpus] seen show "unk_token_id ?v \<notin> set r" by blast
  qed
  have d: "stoi ?v (str_of ''<unk>'') = Some (unk_token_id ?v)"
    by (simp only: ref_tokenizer_sel stoi_special)
  have e: "itos ?v (unk_token_id ?v) = Some (str_of ''<unk>'')"
    by (simp only: ref_tokenizer_sel itos_special)
  show ?thesis
    unfolding build_tokenizer_eq[OF assms] sum.case
    by (intro conjI a b c d e)
qed

lemma itos_join_chars:
  assumes "\<forall>c\<in>set s. c \<in> set (concat corpus)"
  shows "itos_join (ref_tokenizer corpus) (map (\<lambda>c. the (stoi (ref_tokenizer corpus) [c])) s) = Inr s"
proof -
  let ?v = "ref_tokenizer corpus"
  have rt: "itos ?v (the (stoi ?v [c])) = Some [c]" if "c \<in> set s" for c
    using assms that char_id_bound(3)[of c corpus] by blast
  have 1: "\<forall>i\<in>set (map (\<lambda>c. the (stoi ?v [c])) s). itos ?v i \<noteq> None"
    using rt by (auto simp del: set_concat)
  have 2: "map (\<lambda>i. the (itos ?v i)) (map (\<lambda>c. the (stoi ?v [c])) s) = map (\<lambda>c. [c]) s"
    unfolding map_map by (rule map_cong[OF refl]) (simp add: rt)
  have 3: "concat (map (\<lambda>c. [c]) s) = s" by (induction s) simp_all
  have "itos_all ?v (map (\<lambda>c. the (stoi ?v [c])) s)
          = Inr (map (\<lambda>i. the (itos ?v i)) (map (\<lambda>c. the (stoi ?v [c])) s))"
    unfolding itos_all_eq by (rule if_P[OF 1])
  then have "itos_all ?v (map (\<lambda>c. the (stoi ?v [c])) s) = Inr (map (\<lambda>c. [c]) s)"
    by (simp only: 2)
  then show ?thesis
    unfolding itos_join_def using 3 by simp
qed

lemma strip_reserved_row:
  assumes "\<forall>c\<in>set s. c \<in> set (concat corpus)"
  shows "strip_reserved (ref_tokenizer corpus)
           (sos_token_id (ref_tokenizer corpus)
              # map (\<lambda>c. the (stoi (ref_tokenizer corpus) [c])) s
              @ [eos_token_id (ref_tokenizer corpus)])
         = map (\<lambda>c. the (stoi (ref_tokenizer corpus) [c])) s"
proof -
  let ?v = "ref_tokenizer corpus"
  let ?ids = "map (\<lambda>c. the (stoi ?v [c])) s"
  have "filter (\<lambda>i. i \<noteq> sos_token_id ?v \<and> i \<noteq> eos_token_id ?v) ?ids = ?ids"
  proof (rule filter_True, rule ballI)
    fix i assume "i \<in> set ?ids"
    from char_id_less[OF assms this]
    show "i \<noteq> sos_token_id ?v \<and> i \<noteq> eos_token_id ?v"
      by (simp add: ref_tokenizer_sel(3,4))
  qed
  then show ?thesis by (simp add: strip_reserved_def)
qed

lemma itos_all_append:
  "itos_all v (xs @ ys) =
     (case itos_all v xs of
        Inl e \<Rightarrow> Inl e
      | Inr ts \<Rightarrow> (case itos_all v ys of Inl e \<Rightarrow> Inl e | Inr us \<Rightarrow> Inr (ts @ us)))"
  by (induction xs) (auto split: sum.splits)

lemma itos_join_row:
  assumes "\<forall>c\<in>set s. c \<in> set (concat corpus)"
  shows "itos_join (ref_tokenizer corpus)
           (sos_token_id (ref_tokenizer corpus)
              # map (\<lambda>c. the (stoi (ref_tokenizer corpus) [c])) s
              @ [eos_token_id (ref_tokenizer corpus)])
         = Inr (str_of ''<sos>'' @ s @ str_of ''<eos>'')"
proof -
  let ?v = "ref_tokenizer corpus"
  let ?ids = "map (\<lambda>c. the (stoi ?v [c])) s"
  from itos_join_chars[OF assms] obtain ts where
    ts: "itos_all ?v ?ids = Inr ts" "concat ts = s"
    by (auto simp: itos_join_def split: sum.splits)
  have sos: "getitem (itos ?v) (sos_token_id ?v) = Inr (str_of ''<sos>'')"
    and eos: "getitem (itos ?v) (eos_token_id ?v) = Inr (str_of ''<eos>'')"
    by (simp_all add: getitem_def ref_tokenizer_sel itos_special)
  have "itos_all ?v [eos_token_id ?v] = Inr [str_of ''<eos>'']"
    using eos by simp
  with ts(1) have "itos_all ?v (?ids @ [eos_token_id ?v]) = Inr (ts @ [str_of ''<eos>''])"
    by (simp add: itos_all_append)
  with sos have "itos_all ?v (sos_token_id ?v # ?ids @ [eos_token_id ?v])
      = Inr (str_of ''<sos>'' # ts @ [str_of ''<eos>''])"
    by simp
  with ts(2) show ?thesis by (simp add: itos_join_def)
qed

text \<open>
  Claim C4. For a string \<open>s\<close> whose characters all occur in the corpus the vocabulary
  was built from, \<open>tokenize [s]\<close> returns one list of ids, the start id, one id for each
  character and the end id; mapping the ids back through \<open>itos\<close> and joining, after the
  start and end ids are stripped (by value, or as the first and last element), gives
  \<open>s\<close> again. The join of the unstripped list is \<open>s\<close> between the two reserved tokens.
\<close>

theorem tokenizer_round_trip:
  assumes "lists_set list_of (corpus_set corpus)"
    and "\<forall>c\<in>set s. c \<in> set (concat corpus)"
  shows "case build_tokenizer list_of corpus of
           Inl e \<Rightarrow> False
         | Inr v \<Rightarrow>
             (case tokenize [s] v of
                Inl e \<Rightarrow> False
              | Inr out \<Rightarrow>
                  length out = 1 \<and>
                  length (out ! 0) = length s + 2 \<and>
                  hd (out ! 0) = sos_token_id v \<and>
                  last (out ! 0) = eos_token_id v \<and>
                  itos_join v (strip_reserved v (out ! 0)) = Inr s \<and>
                  itos_join v (butlast (tl (out ! 0))) = Inr s \<and>
                  itos_join v (out ! 0) = Inr (str_of ''<sos>'' @ s @ str_of ''<eos>''))"
proof -
  let ?v = "ref_tokenizer corpus"
  let ?ids = "map (\<lambda>c. the (stoi ?v [c])) s"
  let ?row = "sos_token_id ?v # ?ids @ [eos_token_id ?v]"
  have tok: "tokenize [s] ?v = Inr [?row]"
    using assms(2) by (simp add: tokenize_ref del: set_concat)
  have 1: "itos_join ?v (strip_reserved ?v ?row) = Inr s"
    by (simp only: strip_reserved_row[OF assms(2)] itos_join_chars[OF assms(2)])
  have 2: "itos_join ?v (butlast (tl ?row)) = Inr s"
    using itos_join_chars[OF assms(2)] by simp
  note 3 = itos_join_row[OF assms(2)]
  show ?thesis
    unfolding build_tokenizer_eq[OF assms(1)] sum.case tok
    using 1 2 3 by simp
qed

lemma lists_set_rev_sorted: "finite S \<Longrightarrow> lists_set (\<lambda>S. rev (sorted_list_of_set S)) S"
  by (simp add: lists_set_def)

lemma lists_set_sorted: "finite S \<Longrightarrow> lists_set sorted_list_of_set S"
  by (simp add: lists_set_def)

lemma finite_corpus_set: "finite (corpus_set sents)"
  by (simp add: corpus_set_def)

lemma sorted_chars_code: "sorted_chars sents = sort (remdups (concat sents))"
  unfolding sorted_chars_def by (rule sorted_list_of_set_sort_remdups)

theorem build_tokenizer_deterministic_layout_witness:
  "lists_set (\<lambda>S. rev (sorted_list_of_set S)) (corpus_set [str_of ''cab'', str_of ''bb'']) \<and>
   lists_set sorted_list_of_set (corpus_set [str_of ''cab'', str_of ''bb'']) \<and>
   build_tokenizer sorted_list_of_set [str_of ''cab'', str_of ''bb'']
     = build_tokenizer (\<lambda>S. rev (sorted_list_of_set S)) [str_of ''cab'', str_of ''bb''] \<and>
   (case build_tokenizer (\<lambda>S. rev (sorted_list_of_set S)) [str_of ''cab'', str_of ''bb''] of
      Inl e \<Rightarrow> False
    | Inr v \<Rightarrow>
        stoi v (str_of ''a'') = Some 0 \<and> stoi v (str_of ''b'') = Some 1 \<and>
        stoi v (str_of ''c'') = Some 2 \<and>
        sos_token_id v = 3 \<and> eos_token_id v = 4 \<and> unk_token_id v = 5 \<and>
        itos v 3 = Some (str_of ''<sos>'') \<and> itos v 4 = Some (str_of ''<eos>'') \<and>
        itos v 5 = Some (str_of ''<unk>'') \<and> dom (itos v) = {0..<6})"
proof -
  let ?corpus = "[str_of ''cab'', str_of ''bb'']"
  have h1: "lists_set (\<lambda>S. rev (sorted_list_of_set S)) (corpus_set ?corpus)"
    by (rule lists_set_rev_sorted[OF finite_corpus_set])
  have h2: "lists_set sorted_list_of_set (corpus_set ?corpus)"
    by (rule lists_set_sorted[OF finite_corpus_set])
  have sc: "sorted_chars ?corpus = [97, 98, 99]"
    by (simp add: sorted_chars_code str_of_def)
  have abc: "str_of ''a'' = [97]" "str_of ''b'' = [98]" "str_of ''c'' = [99]"
    by (simp_all add: str_of_def)
  note layout = build_tokenizer_deterministic_layout[OF h1 h2]
  show ?thesis
  proof (cases "build_tokenizer (\<lambda>S. rev (sorted_list_of_set S)) ?corpus")
    case (Inl e)
    with layout show ?thesis by simp
  next
    case (Inr v)
    from layout have same: "build_tokenizer sorted_list_of_set ?corpus
        = build_tokenizer (\<lambda>S. rev (sorted_list_of_set S)) ?corpus" by (rule conjunct1)
    from layout Inr have chars: "\<forall>i<3. stoi v [ [97, 98, 99] ! i] = Some (int i)"
      and ids: "sos_token_id v = 3" "eos_token_id v = 4" "unk_token_id v = 5"
      and names: "itos v 3 = Some (str_of ''<sos>'')"
        "itos v 4 = Some (str_of ''<eos>'')"
        "itos v 5 = Some (str_of ''<unk>'')"
      and dom: "dom (itos v) = {0..<6}"
      by (auto simp: sc)
    from chars have "stoi v [97] = Some 0" "stoi v [98] = Some 1" "stoi v [99] = Some 2"
      by (auto dest: spec[of _ 0] spec[of _ 1] spec[of _ 2])
    with h1 h2 same ids names dom show ?thesis
      by (simp add: Inr abc)
  qed
qed

theorem tokenize_unseen_raises_KeyError_witness:
  "lists_set sorted_list_of_set (corpus_set [str_of ''cab'', str_of ''bb'']) \<and>
   (\<exists>sent\<in>set [str_of ''abd'']. \<exists>c\<in>set sent. c \<notin> set (concat [str_of ''cab'', str_of ''bb''])) \<and>
   set (str_of ''abc'') \<subseteq> set (concat [str_of ''cab'', str_of ''bb'']) \<and>
   (case build_tokenizer sorted_list_of_set [str_of ''cab'', str_of ''bb''] of
      Inl e \<Rightarrow> False
    | Inr v \<Rightarrow>
        tokenize [str_of ''abd''] v = Inl KeyError \<and>
        (\<exists>out. tokenize [str_of ''abc''] v = Inr out \<and> (\<forall>r\<in>set out. unk_token_id v \<notin> set r)) \<and>
        stoi v (str_of ''<unk>'') = Some (unk_token_id v))"
proof -
  let ?corpus = "[str_of ''cab'', str_of ''bb'']"
  have h: "lists_set sorted_list_of_set (corpus_set ?corpus)"
    by (rule lists_set_sorted[OF finite_corpus_set])
  have unseen: "\<exists>sent\<in>set [str_of ''abd'']. \<exists>c\<in>set sent. c \<notin> set (concat ?corpus)"
    by (simp add: str_of_def)
  have seen: "\<forall>sent\<in>set [str_of ''abc'']. \<forall>c\<in>set sent. c \<in> set (concat ?corpus)"
    by (simp add: str_of_def)
  note bad = tokenize_unseen_raises_KeyError[OF h, of "[str_of ''abd'']"]
  note good = tokenize_unseen_raises_KeyError[OF h, of "[str_of ''abc'']"]
  show ?thesis
  proof (cases "build_tokenizer sorted_list_of_set ?corpus")
    case (Inl e)
    with bad show ?thesis by simp
  next
    case (Inr v)
    from bad Inr unseen have 1: "tokenize [str_of ''abd''] v = Inl KeyError"
      by (simp del: set_concat)
    from good Inr seen obtain out where out: "tokenize [str_of ''abc''] v = Inr out"
      by (auto simp del: set_concat)
    from good Inr out have 2: "\<forall>r\<in>set out. unk_token_id v \<notin> set r"
      by (simp del: set_concat)
    from good Inr have 3: "stoi v (str_of ''<unk>'') = Some (unk_token_id v)"
      by (simp del: set_concat)
    have seen': "set (str_of ''abc'') \<subseteq> set (concat ?corpus)"
      by (simp add: str_of_def)
    from h unseen seen' 1 out 2 3 show ?thesis
      unfolding Inr sum.case by blast
  qed
qed

theorem tokenizer_round_trip_witness:
  "lists_set sorted_list_of_set (corpus_set [str_of ''cab'', str_of ''bb'']) \<and>
   set (str_of ''abcba'') \<subseteq> set (concat [str_of ''cab'', str_of ''bb'']) \<and>
   (case build_tokenizer sorted_list_of_set [str_of ''cab'', str_of ''bb''] of
      Inl e \<Rightarrow> False
    | Inr v \<Rightarrow>
        (case tokenize [str_of ''abcba''] v of
           Inl e \<Rightarrow> False
         | Inr out \<Rightarrow>
             length out = 1 \<and>
             length (out ! 0) = length (str_of ''abcba'') + 2 \<and>
             hd (out ! 0) = sos_token_id v \<and>
             last (out ! 0) = eos_token_id v \<and>
             itos_join v (strip_reserved v (out ! 0)) = Inr (str_of ''abcba'') \<and>
             itos_join v (butlast (tl (out ! 0))) = Inr (str_of ''abcba'') \<and>
             itos_join v (out ! 0) = Inr (str_of ''<sos>'' @ str_of ''abcba'' @ str_of ''<eos>'')))"
proof -
  let ?corpus = "[str_of ''cab'', str_of ''bb'']"
  have h: "lists_set sorted_list_of_set (corpus_set ?corpus)"
    by (rule lists_set_sorted[OF finite_corpus_set])
  have seen: "\<forall>c\<in>set (str_of ''abcba''). c \<in> set (concat ?corpus)"
    by (simp add: str_of_def)
  have seen': "set (str_of ''abcba'') \<subseteq> set (concat ?corpus)"
    by (simp add: str_of_def)
  from h seen' tokenizer_round_trip[OF h seen] show ?thesis
    by (intro conjI)
qed

section \<open>Properties of generation\<close>

lemma squeeze_0: "\<exists>t'. squeeze 0 t = Inr t'"
  by (simp add: squeeze_def)

lemma unsqueeze_0: "unsqueeze 0 t = Inr (t\<lparr>shape := 1 # shape t\<rparr>)"
  by (simp add: unsqueeze_def)

lemma ones_times_batch:
  "ones_times [1, 1] a = (if fits_long a then Inr (long_batch a) else Inl OverflowError)"
  "ones_times [Suc 0, Suc 0] a = (if fits_long a then Inr (long_batch a) else Inl OverflowError)"
  by (simp_all add: ones_times_def long_batch_def)

lemma sampled_tokens_append:
  "sampled_tokens (cs @ ds) = sampled_tokens cs @ sampled_tokens ds"
  by (induction cs rule: sampled_tokens.induct) simp_all

lemma decoder_inputs_of_append:
  "decoder_inputs_of (cs @ ds) = decoder_inputs_of cs @ decoder_inputs_of ds"
  by (induction cs rule: decoder_inputs_of.induct) simp_all

lemma call_decoder_calls:
  "call_decoder self decoder_input decoder_hidden w = (r, w1) \<Longrightarrow>
   calls w1 = calls w @ [DecoderCall decoder_input decoder_hidden]"
  by (auto simp: call_decoder_def split: prod.splits)

lemma call_sample_calls:
  "call_sample sample probs temperature w = (r, w1) \<Longrightarrow>
   calls w1 = calls w @ [SampleCall probs temperature r]"
  by (auto simp: call_sample_def split: prod.splits)

lemma forward_loop_Inr:
  "forward_loop sample self temperature n decoder_input decoder_hidden acc w = (Inr out, w') \<Longrightarrow>
   \<exists>new. out = acc @ new \<and> length new \<le> n \<and>
     self_eos_token_id self \<notin> set (butlast new) \<and>
     (length new < n \<longrightarrow> new \<noteq> [] \<and> last new = self_eos_token_id self) \<and>
     sampled_tokens (calls w') = sampled_tokens (calls w) @ new \<and>
     decoder_inputs_of (calls w') =
       decoder_inputs_of (calls w) @ take (length new) (decoder_input # map long_batch new)"
proof (induction n arbitrary: decoder_input decoder_hidden acc w)
  case 0
  then show ?case by simp
next
  case (Suc n)
  from Suc.prems obtain logits decoder_hidden' w1 squeezed token w2 where
    dec: "call_decoder self decoder_input decoder_hidden w = (Inr (logits, decoder_hidden'), w1)"
    and sq: "squeeze 0 logits = Inr squeezed"
    and smp: "call_sample sample squeezed temperature w1 = (Inr token, w2)"
    by (auto split: prod.splits sum.splits)
  from call_decoder_calls[OF dec] call_sample_calls[OF smp]
  have calls2: "calls w2 = calls w @ [DecoderCall decoder_input decoder_hidden,
      SampleCall squeezed temperature (Inr token)]" by simp
  then have smp2: "sampled_tokens (calls w2) = sampled_tokens (calls w) @ [token]"
    and dec2: "decoder_inputs_of (calls w2) = decoder_inputs_of (calls w) @ [decoder_input]"
    by (simp_all add: sampled_tokens_append decoder_inputs_of_append)
  show ?case
  proof (cases "token = self_eos_token_id self")
    case True
    with Suc.prems dec sq smp have "out = acc @ [token]" "w' = w2" by simp_all
    with True smp2 dec2 show ?thesis by simp
  next
    case False
    with Suc.prems dec sq smp have fits: "fits_long token"
      by (auto simp: ones_times_batch split: if_splits)
    with False Suc.prems dec sq smp have
      "forward_loop sample self temperature n (long_batch token) decoder_hidden'
         (acc @ [token]) w2 = (Inr out, w')"
      by (simp add: ones_times_batch)
    from Suc.IH[OF this] obtain new where new: "out = (acc @ [token]) @ new" "length new \<le> n"
      "self_eos_token_id self \<notin> set (butlast new)"
      "length new < n \<longrightarrow> new \<noteq> [] \<and> last new = self_eos_token_id self"
      "sampled_tokens (calls w') = sampled_tokens (calls w2) @ new"
      "decoder_inputs_of (calls w') =
         decoder_inputs_of (calls w2) @ take (length new) (long_batch token # map long_batch new)"
      by blast
    have a: "self_eos_token_id self \<notin> set (butlast (token # new))"
      using new(3) False by (auto simp: butlast.simps(2))
    have b: "length (token # new) < Suc n \<longrightarrow>
        token # new \<noteq> [] \<and> last (token # new) = self_eos_token_id self"
      using new(4) by auto
    have c: "sampled_tokens (calls w') = sampled_tokens (calls w) @ (token # new)"
      using new(5) smp2 by simp
    have d: "decoder_inputs_of (calls w') = decoder_inputs_of (calls w) @
        take (length (token # new)) (decoder_input # map long_batch (token # new))"
      using new(6) dec2 by simp
    from new(1,2) a b c d show ?thesis
      by (intro exI[of _ "token # new"]) simp
  qed
qed


lemma forward_Inr:
  assumes "forward sample self input_tokens max_output_len temperature w = (Inr out, w')"
  shows "length out \<le> nat max_output_len \<and>
     self_eos_token_id self \<notin> set (butlast out) \<and>
     (length out < nat max_output_len \<longrightarrow> out \<noteq> [] \<and> last out = self_eos_token_id self) \<and>
     sampled_tokens (calls w') = sampled_tokens (calls w) @ out \<and>
     decoder_inputs_of (calls w') = decoder_inputs_of (calls w) @
       take (length out) (long_batch (self_sos_token_id self) # map long_batch out)"
proof -
  let ?X = "input_tokens\<lparr>shape := 1 # shape input_tokens\<rparr>"
  from assms obtain hidden w1 where
    enc: "call_encoder self ?X w = (Inr hidden, w1)"
    and fits: "fits_long (self_sos_token_id self)"
    and loop: "forward_loop sample self temperature (nat max_output_len)
       (long_batch (self_sos_token_id self)) hidden [] w1 = (Inr out, w')"
    by (auto simp: forward_def unsqueeze_0 ones_times_batch split: prod.splits sum.splits if_splits)
  from enc have "calls w1 = calls w @ [EncoderCall ?X]"
    by (auto simp: call_encoder_def split: prod.splits)
  then have "sampled_tokens (calls w1) = sampled_tokens (calls w)"
    and "decoder_inputs_of (calls w1) = decoder_inputs_of (calls w)"
    by (simp_all add: sampled_tokens_append decoder_inputs_of_append)
  with forward_loop_Inr[OF loop] show ?thesis by simp
qed

lemma eos_last_if_member:
  assumes "e \<notin> set (butlast out)" and "e \<in> set out"
  shows "out \<noteq> [] \<and> last out = e"
proof -
  from assms(2) have ne: "out \<noteq> []" by auto
  then have "out = butlast out @ [last out]" by simp
  then have "set out = set (butlast out) \<union> {last out}"
    by (metis Un_insert_right list.simps(15) set_append sup_bot.right_neutral empty_set)
  with assms ne show ?thesis by auto
qed

lemma count_le_1_if_only_last:
  assumes "e \<notin> set (butlast out)"
  shows "count_list out e \<le> 1"
proof (cases "out = []")
  case True then show ?thesis by simp
next
  case False
  then have "out = butlast out @ [last out]" by simp
  then have "count_list out e = count_list (butlast out) e + count_list [last out] e"
    by (metis count_list_append)
  moreover have "count_list (butlast out) e = 0" using assms by (simp add: count_list_0_iff)
  ultimately show ?thesis by simp
qed

lemmas toy_defs = toy_model_def toy_world_def toy_encoder_def toy_decoder_def toy_sample_def
  toy_rows_def



text \<open>
  Claim C9. In every sequence that generation returns, the end id occurs at most once,
  and only as the last element: no element before the final position is the end id.
\<close>

theorem forward_eos_only_last:
  assumes "forward sample self input_tokens max_output_len temperature w = (Inr out, w')"
  shows "self_eos_token_id self \<notin> set (butlast out) \<and>
         count_list out (self_eos_token_id self) \<le> 1 \<and>
         (self_eos_token_id self \<in> set out \<longrightarrow> last out = self_eos_token_id self) \<and>
         (\<forall>i. Suc i < length out \<longrightarrow> out ! i \<noteq> self_eos_token_id self)"
proof -
  from forward_Inr[OF assms] have only_last: "self_eos_token_id self \<notin> set (butlast out)"
    by blast
  have idx: "\<forall>i. Suc i < length out \<longrightarrow> out ! i \<noteq> self_eos_token_id self"
  proof (intro allI impI)
    fix i assume i: "Suc i < length out"
    then have "butlast out ! i \<in> set (butlast out)" by (intro nth_mem) simp
    moreover have "butlast out ! i = out ! i" using i by (simp add: nth_butlast)
    ultimately show "out ! i \<noteq> self_eos_token_id self" using only_last by metis
  qed
  from only_last count_le_1_if_only_last[OF only_last] eos_last_if_member[OF only_last] idx
  show ?thesis by blast
qed

text \<open>
  Claim C10. With \<open>max_output_len = 0\<close> generation returns the empty sequence, for every
  temperature and every sampler, on every input on which the encoder returns, when the
  start id is accepted as a 64-bit integer (the start batch is built before the loop):
  the encoder is invoked once, the decoder is not invoked and nothing is sampled.
\<close>

theorem forward_zero_max_output_len:
  assumes "fst (encoder self (input_tokens\<lparr>shape := 1 # shape input_tokens\<rparr>) (rand w)) = Inr hidden"
    and "fits_long (self_sos_token_id self)"
  shows "forward sample self input_tokens 0 temperature w =
     (Inr [], \<lparr>rand = snd (encoder self (input_tokens\<lparr>shape := 1 # shape input_tokens\<rparr>) (rand w)),
               calls = calls w @ [EncoderCall (input_tokens\<lparr>shape := 1 # shape input_tokens\<rparr>)]\<rparr>)"
  using assms
  by (cases "encoder self (input_tokens\<lparr>shape := 1 # shape input_tokens\<rparr>) (rand w)")
     (simp add: forward_def unsqueeze_0 call_encoder_def ones_times_batch)

lemma replicate_2: "replicate 2 x = [x, x]"
  by (simp add: numeral_2_eq_2)

lemma toy_forward_loop_run:
  "forward_loop toy_sample toy_model 1 (Suc (Suc (Suc n)))
        \<lparr>shape = [1, 1], elems = [0]\<rparr> \<lparr>shape = [1, 1, 1], elems = [0]\<rparr> []
        \<lparr>rand = [2, 0, 1, 5], calls = [EncoderCall \<lparr>shape = [1, 3], elems = [5, 6, 7]\<rparr>]\<rparr>
      = (Inr [2, 0, 1],
      \<lparr>rand = [5],
       calls = [EncoderCall \<lparr>shape = [1, 3], elems = [5, 6, 7]\<rparr>,
                DecoderCall \<lparr>shape = [1, 1], elems = [0]\<rparr> \<lparr>shape = [1, 1, 1], elems = [0]\<rparr>,
                SampleCall \<lparr>shape = [2], elems = [0, 0]\<rparr> 1 (Inr 2),
                DecoderCall \<lparr>shape = [1, 1], elems = [2]\<rparr> \<lparr>shape = [1, 1, 1], elems = [0]\<rparr>,
                SampleCall \<lparr>shape = [2], elems = [0, 0]\<rparr> 1 (Inr 0),
                DecoderCall \<lparr>shape = [1, 1], elems = [0]\<rparr> \<lparr>shape = [1, 1, 1], elems = [0]\<rparr>,
                SampleCall \<lparr>shape = [2], elems = [0, 0]\<rparr> 1 (Inr 1)]\<rparr>)"
  by (simp add: call_decoder_def call_sample_def toy_defs squeeze_def ones_times_def
      fits_long_def long_value_def replicate_2)

lemma toy_forward_run:
  "forward toy_sample toy_model \<lparr>shape = [3], elems = [5, 6, 7]\<rparr> 10 1 (toy_world [2, 0, 1, 5]) =
     (Inr [2, 0, 1],
      \<lparr>rand = [5],
       calls = [EncoderCall \<lparr>shape = [1, 3], elems = [5, 6, 7]\<rparr>,
                DecoderCall \<lparr>shape = [1, 1], elems = [0]\<rparr> \<lparr>shape = [1, 1, 1], elems = [0]\<rparr>,
                SampleCall \<lparr>shape = [2], elems = [0, 0]\<rparr> 1 (Inr 2),
                DecoderCall \<lparr>shape = [1, 1], elems = [2]\<rparr> \<lparr>shape = [1, 1, 1], elems = [0]\<rparr>,
                SampleCall \<lparr>shape = [2], elems = [0, 0]\<rparr> 1 (Inr 0),
                DecoderCall \<lparr>shape = [1, 1], elems = [0]\<rparr> \<lparr>shape = [1, 1, 1], elems = [0]\<rparr>,
                SampleCall \<lparr>shape = [2], elems = [0, 0]\<rparr> 1 (Inr 1)]\<rparr>)"
proof -
  have n: "nat 10 = Suc (Suc (Suc 7))" by simp
  have enc: "call_encoder toy_model \<lparr>shape = [1, 3], elems = [5, 6, 7]\<rparr> (toy_world [2, 0, 1, 5])
      = (Inr \<lparr>shape = [1, 1, 1], elems = [0]\<rparr>,
         \<lparr>rand = [2, 0, 1, 5], calls = [EncoderCall \<lparr>shape = [1, 3], elems = [5, 6, 7]\<rparr>]\<rparr>)"
    by (simp add: call_encoder_def toy_defs)
  have x: "unsqueeze 0 \<lparr>shape = [3], elems = [5, 6, 7 :: int]\<rparr> = Inr \<lparr>shape = [1, 3], elems = [5, 6, 7]\<rparr>"
    by (simp add: unsqueeze_def)
  have sos: "ones_times [1, 1] (self_sos_token_id toy_model) = Inr \<lparr>shape = [1, 1], elems = [0]\<rparr>"
    by (simp add: ones_times_def toy_model_def fits_long_def long_value_def)
  show ?thesis
    unfolding forward_def n x enc sos sum.case prod.case
    by (rule toy_forward_loop_run)
qed

theorem forward_eos_only_last_witness:
  "fst (forward toy_sample toy_model \<lparr>shape = [3], elems = [5, 6, 7]\<rparr> 10 1 (toy_world [2, 0, 1, 5]))
     = Inr [2, 0, 1] \<and>
   self_eos_token_id toy_model \<notin> set (butlast [2, 0, 1]) \<and>
   count_list [2, 0, 1] (self_eos_token_id toy_model) \<le> 1 \<and>
   last [2, 0, 1] = self_eos_token_id toy_model \<and>
   [2, 0, 1] ! 0 \<noteq> self_eos_token_id toy_model \<and> [2, 0, 1] ! 1 \<noteq> self_eos_token_id toy_model"
proof -
  note only_last = forward_eos_only_last[OF toy_forward_run]
  have eos: "self_eos_token_id toy_model \<in> set [2, 0, 1]" by (simp add: toy_model_def)
  from only_last eos have "last [2, 0, 1] = self_eos_token_id toy_model" by blast
  moreover from only_last have "[2, 0, 1] ! 0 \<noteq> self_eos_token_id toy_model"
    "[2, 0, 1] ! 1 \<noteq> self_eos_token_id toy_model"
    by (auto dest: spec[of _ 0] spec[of _ 1])
  ultimately show ?thesis using only_last by (simp add: toy_forward_run)
qed

theorem forward_zero_max_output_len_witness:
  "fst (encoder toy_model \<lparr>shape = [1, 3], elems = [5, 6, 7]\<rparr> (rand (toy_world [2, 0, 1, 5])))
     = Inr \<lparr>shape = [1, 1, 1], elems = [0]\<rparr> \<and>
   fits_long (self_sos_token_id toy_model) \<and>
   forward toy_sample toy_model \<lparr>shape = [3], elems = [5, 6, 7]\<rparr> 0 0 (toy_world [2, 0, 1, 5]) =
     (Inr [], \<lparr>rand = [2, 0, 1, 5],
               calls = [EncoderCall \<lparr>shape = [1, 3], elems = [5, 6, 7]\<rparr>]\<rparr>)"
proof -
  let ?x = "\<lparr>shape = [3], elems = [5, 6, 7 :: int]\<rparr>"
  have enc: "fst (encoder toy_model (?x\<lparr>shape := 1 # shape ?x\<rparr>) (rand (toy_world [2, 0, 1, 5])))
     = Inr \<lparr>shape = [1, 1, 1], elems = [0]\<rparr>"
    by (simp add: toy_defs)
  have fits: "fits_long (self_sos_token_id toy_model)"
    by (simp add: toy_model_def fits_long_def)
  from forward_zero_max_output_len[OF enc fits, of toy_sample 0] enc fits show ?thesis
    by (simp add: toy_defs)
qed

section \<open>The training forward pass as written\<close>

lemma forward_train_loop_unbound:
  "forward_train_loop self output_tokens tokens None decoder_hidden output_list w =
     (if tokens = [] then (Inr output_list, w) else (Inl UnboundLocalError, w))"
  by (cases tokens) simp_all

lemma call_encoder_calls:
  "calls (snd (call_encoder self X w)) = calls w @ [EncoderCall X]"
  by (simp add: call_encoder_def split: prod.splits)

lemma forward_train_after_encoder:
  assumes "call_encoder self input_tokens w = (r, w1)"
  shows "(\<exists>e. fst (forward_train self input_tokens output_tokens w) = Inl e) \<and>
         snd (forward_train self input_tokens output_tokens w) = w1"
proof (cases r)
  case (Inl e)
  with assms show ?thesis by (simp add: forward_train_def)
next
  case (Inr hidden)
  show ?thesis
  proof (cases "select0 input_tokens")
    case (Inl e)
    with assms Inr show ?thesis by (simp add: forward_train_def)
  next
    case row: (Inr row)
    show ?thesis
    proof (cases "as_size row")
      case (Inl e)
      with assms Inr row show ?thesis by (simp add: forward_train_def)
    next
      case n: (Inr n)
      show ?thesis
      proof (cases "ones_times [n, 1] (self_sos_token_id self)")
        case (Inl e)
        with assms Inr row n show ?thesis by (simp add: forward_train_def)
      next
        case start: (Inr decoder_input)
        show ?thesis
        proof (cases "shape_at hidden 1")
          case (Inl e)
          with assms Inr row n start show ?thesis by (simp add: forward_train_def)
        next
          case batch: (Inr batch)
          show ?thesis
          proof (cases "[0..<nat (int batch - 1)] = []")
            case True
            with assms Inr row n start batch show ?thesis
              by (simp add: forward_train_def forward_train_loop_unbound cat1_def
                  del: upt_eq_Nil_conv)
          next
            case False
            with assms Inr row n start batch show ?thesis
              by (simp add: forward_train_def forward_train_loop_unbound del: upt_eq_Nil_conv)
          qed
        qed
      qed
    qed
  qed
qed

text \<open>
  Claim C1 says that \<open>forward_train\<close> returns logits of shape \<open>(B, L-1, vocab_size)\<close>. As
  written, the function returns on no input: it raises at the size
  \<^verbatim>\<open>(input_tokens[0], 1)\<close> (or at the product with a start id that is no 64-bit
  integer), or at the first read of the unbound \<^verbatim>\<open>decoder_inputs\<close>, or, when the loop
  has no iteration, at \<^verbatim>\<open>torch.cat\<close> of the empty list. On a batch of two rows of
  three ids the call raises \<^verbatim>\<open>TypeError\<close>.
\<close>

theorem forward_train_never_returns:
  "(\<exists>e. fst (forward_train self input_tokens output_tokens w) = Inl e) \<and>
   fst (forward_train toy_model \<lparr>shape = [2, 3], elems = [3, 0, 4, 3, 1, 4]\<rparr>
          \<lparr>shape = [2, 3], elems = [3, 0, 4, 3, 1, 4]\<rparr> (toy_world [])) = Inl TypeError"
proof
  obtain r w1 where "call_encoder self input_tokens w = (r, w1)"
    by (cases "call_encoder self input_tokens w")
  from forward_train_after_encoder[OF this]
  show "\<exists>e. fst (forward_train self input_tokens output_tokens w) = Inl e" by blast
  show "fst (forward_train toy_model \<lparr>shape = [2, 3], elems = [3, 0, 4, 3, 1, 4]\<rparr>
          \<lparr>shape = [2, 3], elems = [3, 0, 4, 3, 1, 4]\<rparr> (toy_world [])) = Inl TypeError"
    by (simp add: forward_train_def call_encoder_def toy_defs select0_def as_size_def)
qed

text \<open>
  Claim C2 says that \<open>forward_train\<close> runs the encoder once and then invokes the decoder
  at every step with the ground-truth token. As written, the encoder is invoked once and
  the decoder is never invoked: on a batch of two rows of one id, where the size
  \<^verbatim>\<open>(input_tokens[0], 1)\<close> is accepted, the first iteration raises \<^verbatim>\<open>UnboundLocalError\<close>
  before the decoder is called.
\<close>

theorem forward_train_decoder_never_invoked:
  "calls (snd (forward_train self input_tokens output_tokens w)) = calls w @ [EncoderCall input_tokens] \<and>
   forward_train toy_model \<lparr>shape = [2, 1], elems = [3, 3]\<rparr> \<lparr>shape = [2, 1], elems = [3, 3]\<rparr>
       (toy_world []) =
     (Inl UnboundLocalError, \<lparr>rand = [], calls = [EncoderCall \<lparr>shape = [2, 1], elems = [3, 3]\<rparr>]\<rparr>)"
proof
  obtain r w1 where e: "call_encoder self input_tokens w = (r, w1)"
    by (cases "call_encoder self input_tokens w")
  from forward_train_after_encoder[OF this]
  have "snd (forward_train self input_tokens output_tokens w) = w1" by blast
  moreover from call_encoder_calls[of self input_tokens w] e
  have "calls w1 = calls w @ [EncoderCall input_tokens]" by simp
  ultimately show "calls (snd (forward_train self input_tokens output_tokens w))
      = calls w @ [EncoderCall input_tokens]" by simp
  show "forward_train toy_model \<lparr>shape = [2, 1], elems = [3, 3]\<rparr> \<lparr>shape = [2, 1], elems = [3, 3]\<rparr>
       (toy_world []) =
     (Inl UnboundLocalError, \<lparr>rand = [], calls = [EncoderCall \<lparr>shape = [2, 1], elems = [3, 3]\<rparr>]\<rparr>)"
    by (simp add: forward_train_def call_encoder_def toy_defs select0_def as_size_def
        shape_at_def upt_rec ones_times_def fits_long_def)
qed

section \<open>Shapes of the encoder and the decoder\<close>

lemma length_dropout_vec: "dropout_vec draw xs s = (ys, s') \<Longrightarrow> length ys = length xs"
proof (induction xs arbitrary: s ys s')
  case Nil
  then show ?case by simp
next
  case (Cons x xs)
  obtain factor s1 where d: "draw s = (factor, s1)" by (cases "draw s")
  obtain zs s2 where r: "dropout_vec draw xs s1 = (zs, s2)" by (cases "dropout_vec draw xs s1")
  from Cons.prems d r have "ys = factor * x # zs" by simp
  with Cons.IH[OF r] show ?case by simp
qed

lemma length_dropout_all: "dropout_all draw zs s = (zs', s') \<Longrightarrow> length zs' = length zs"
proof (induction zs arbitrary: s zs' s')
  case Nil
  then show ?case by simp
next
  case (Cons z zs)
  obtain y s1 where d: "dropout_vec draw z s = (y, s1)" by (cases "dropout_vec draw z s")
  obtain ys s2 where r: "dropout_all draw zs s1 = (ys, s2)" by (cases "dropout_all draw zs s1")
  from Cons.prems d r have "zs' = y # ys" by simp
  with Cons.IH[OF r] show ?case by simp
qed

lemma lookup_all_in_range:
  "list_all (\<lambda>t. 0 \<le> t \<and> nat t < length table) ts \<Longrightarrow>
   \<exists>zs. lookup_all table ts = Inr zs \<and> length zs = length ts"
  by (induction ts) auto

lemma gru_step_shape:
  assumes "\<forall>l x h. length h = H \<longrightarrow> length (cell l x h) = H"
    and "list_all (\<lambda>h. length h = H) hs"
  shows "length (gru_step cell l x hs) = length hs \<and>
         list_all (\<lambda>h. length h = H) (gru_step cell l x hs)"
  using assms(2)
proof (induction hs arbitrary: l x)
  case Nil
  then show ?case by simp
next
  case (Cons h hs)
  from Cons.prems have h: "length h = H" and hs: "list_all (\<lambda>h. length h = H) hs" by simp_all
  from assms(1) h have "length (cell l x h) = H" by blast
  with Cons.IH[OF hs, of "Suc l" "cell l x h"] show ?case by (simp add: Let_def)
qed

lemma gru_run_shape:
  assumes "\<forall>l x h. length h = H \<longrightarrow> length (cell l x h) = H"
    and "list_all (\<lambda>h. length h = H) hs"
  shows "length (gru_run cell xs hs) = length hs \<and>
         list_all (\<lambda>h. length h = H) (gru_run cell xs hs)"
  using assms(2)
proof (induction xs arbitrary: hs)
  case Nil
  then show ?case by (simp add: gru_run_def)
next
  case (Cons x xs)
  from gru_step_shape[OF assms(1) Cons.prems, of 0 x]
  have 1: "length (gru_step cell 0 x hs) = length hs"
    and 2: "list_all (\<lambda>h. length h = H) (gru_step cell 0 x hs)" by blast+
  from Cons.IH[OF 2] 1 show ?case by (simp add: gru_run_def)
qed

lemma length_concat_const:
  assumes "\<forall>i<n. length (f i) = k"
  shows "length (concat (map f [0..<n])) = n * k"
  using assms by (induction n) simp_all

lemma well_shaped_stack_hidden:
  assumes "\<forall>b<B. length (finals ! b) = N \<and> list_all (\<lambda>h. length h = H) (finals ! b)"
  shows "well_shaped (stack_hidden N B H finals)"
    and "shape (stack_hidden N B H finals) = [N, B, H]"
proof -
  have vec: "length (finals ! b ! l) = H" if "b < B" "l < N" for b l
  proof -
    from assms that have "length (finals ! b) = N" "list_all (\<lambda>h. length h = H) (finals ! b)"
      by blast+
    with that show ?thesis by (simp add: list_all_length)
  qed
  have layer: "length (concat (map (\<lambda>b. finals ! b ! l) [0..<B])) = B * H" if "l < N" for l
    by (rule length_concat_const) (simp add: vec that)
  have "length (concat (map (\<lambda>l. concat (map (\<lambda>b. finals ! b ! l) [0..<B])) [0..<N])) = N * (B * H)"
    by (rule length_concat_const) (simp add: layer)
  then show "well_shaped (stack_hidden N B H finals)"
    by (simp add: well_shaped_def stack_hidden_def)
  show "shape (stack_hidden N B H finals) = [N, B, H]"
    by (simp add: stack_hidden_def)
qed

lemma length_block:
  assumes "shape t = [N, B, H]" "well_shaped t" "l < N" "b < B"
  shows "length (block B H t l b) = H"
proof -
  from assms(1,2) have len: "length (elems t) = N * (B * H)" by (simp add: well_shaped_def)
  from assms(3,4) have "l * B + b + 1 \<le> N * B"
  proof -
    from assms(3) have "Suc l \<le> N" by simp
    then have "Suc l * B \<le> N * B" by (rule mult_le_mono1)
    with assms(4) show ?thesis by simp
  qed
  then have "(l * B + b + 1) * H \<le> N * B * H" by (rule mult_le_mono1)
  then have "(l * B + b) * H + H \<le> length (elems t)" using len by (simp add: algebra_simps)
  then show ?thesis by (simp add: block_def)
qed

lemma list_all_map_upt: "list_all P (map f [0..<n]) \<longleftrightarrow> (\<forall>i<n. P (f i))"
  by (auto simp: list_all_iff)

lemma take_drop_concat_const:
  assumes "\<forall>i<n. length (f i) = k" and "j < n"
  shows "take k (drop (j * k) (concat (map f [0..<n]))) = f j"
  using assms
proof (induction n)
  case 0
  then show ?case by simp
next
  case (Suc n)
  from Suc.prems(1) have len: "length (concat (map f [0..<n])) = n * k"
    by (intro length_concat_const) simp
  show ?case
  proof (cases "j < n")
    case True
    then have "Suc j * k \<le> n * k" by (intro mult_le_mono1) simp
    then have "j * k + k \<le> n * k" by simp
    with Suc.IH True Suc.prems(1) len show ?thesis by simp
  next
    case False
    with Suc.prems(2) have "j = n" by simp
    with Suc.prems(1) len show ?thesis by simp
  qed
qed

lemma block_stack_hidden:
  assumes "\<forall>b<B. length (finals ! b) = N \<and> list_all (\<lambda>h. length h = H) (finals ! b)"
    and "l < N" and "b < B"
  shows "block B H (stack_hidden N B H finals) l b = finals ! b ! l"
proof -
  let ?layer = "\<lambda>l. concat (map (\<lambda>b. finals ! b ! l) [0..<B])"
  have vec: "length (finals ! b ! l) = H" if "b < B" "l < N" for b l
  proof -
    from assms(1) that have "length (finals ! b) = N" "list_all (\<lambda>h. length h = H) (finals ! b)"
      by blast+
    with that show ?thesis by (simp add: list_all_length)
  qed
  have layer: "length (?layer l) = B * H" if "l < N" for l
    by (rule length_concat_const) (simp add: vec that)
  have outer: "take (B * H) (drop (l * (B * H)) (concat (map ?layer [0..<N]))) = ?layer l"
    by (rule take_drop_concat_const) (simp_all add: layer assms(2))
  have inner: "take H (drop (b * H) (?layer l)) = finals ! b ! l"
    by (rule take_drop_concat_const[where f = "\<lambda>b. finals ! b ! l"]) (simp_all add: vec assms(2,3))
  from assms(3) have "Suc b * H \<le> B * H" by (intro mult_le_mono1) simp
  then have fit: "b * H + H \<le> B * H" by simp
  have "take H (drop ((l * B + b) * H) (concat (map ?layer [0..<N])))
      = take H (drop (b * H) (drop (l * (B * H)) (concat (map ?layer [0..<N]))))"
    by (simp add: algebra_simps)
  also have "\<dots> = take H (drop (b * H) (take (B * H) (drop (l * (B * H)) (concat (map ?layer [0..<N])))))"
    using fit by (simp add: drop_take min_def)
  also have "\<dots> = finals ! b ! l" by (simp only: outer inner)
  finally show ?thesis by (simp add: block_def stack_hidden_def)
qed

text \<open>
  Claim C7. For a batch of token ids of shape \<open>(B, L)\<close>, all in the embedding table, and
  a recurrent unit that returns hidden vectors of the hidden size, the encoder returns a
  tensor of shape \<open>(N_layers, B, hidden_dim)\<close> with as many elements as that shape has,
  whatever \<open>L\<close> is. Its vector for layer \<open>l\<close> and batch element \<open>b\<close> is the hidden vector
  of layer \<open>l\<close> after the last time step of row \<open>b\<close>; nothing of the earlier steps is
  returned.
\<close>

theorem Encoder_forward_shape:
  assumes "shape X = [B, L]"
    and "list_all (\<lambda>t. 0 \<le> t \<and> nat t < length (embedding self)) (elems X)"
    and "\<forall>l x h. length h = hidden_size self \<longrightarrow> length (gru self l x h) = hidden_size self"
  shows "\<exists>hidden s' z z'. Encoder_forward self X s = (Inr hidden, s') \<and>
           shape hidden = [n_layers self, B, hidden_size self] \<and> well_shaped hidden \<and>
           lookup_all (embedding self) (elems X) = Inr z \<and>
           dropout_all (dropout self) z s = (z', s') \<and>
           (\<forall>l<n_layers self. \<forall>b<B.
              block B (hidden_size self) hidden l b =
                gru_run (gru self) (take L (drop (b * L) z'))
                  (replicate (n_layers self) (replicate (hidden_size self) 0)) ! l)"
proof -
  let ?N = "n_layers self" and ?H = "hidden_size self"
  let ?h0 = "replicate ?N (replicate ?H (0::real))"
  from lookup_all_in_range[OF assms(2)] obtain z where
    z: "lookup_all (embedding self) (elems X) = Inr z" by blast
  obtain z' s' where d: "dropout_all (dropout self) z s = (z', s')"
    by (cases "dropout_all (dropout self) z s")
  let ?finals = "map (\<lambda>b. gru_run (gru self) (take L (drop (b * L) z')) ?h0) [0..<B]"
  have run: "Encoder_forward self X s = (Inr (stack_hidden ?N B ?H ?finals), s')"
    using assms(1) z d by (simp add: Encoder_forward_def Let_def)
  have h0: "list_all (\<lambda>h. length h = ?H) ?h0" by (simp add: list_all_length)
  have fin: "\<forall>b<B. length (?finals ! b) = ?N \<and> list_all (\<lambda>h. length h = ?H) (?finals ! b)"
    using gru_run_shape[OF assms(3) h0] by simp
  have blocks: "\<forall>l<?N. \<forall>b<B. block B ?H (stack_hidden ?N B ?H ?finals) l b =
      gru_run (gru self) (take L (drop (b * L) z')) ?h0 ! l"
  proof (intro allI impI)
    fix l b assume "l < ?N" "b < B"
    from block_stack_hidden[OF fin this] \<open>b < B\<close>
    show "block B ?H (stack_hidden ?N B ?H ?finals) l b =
      gru_run (gru self) (take L (drop (b * L) z')) ?h0 ! l" by simp
  qed
  from well_shaped_stack_hidden[OF fin] run z d blocks show ?thesis by blast
qed

lemma apply_linear_fits:
  assumes "list_all (\<lambda>row. length row = length x) (weight lin)"
    and "length (bias lin) = length (weight lin)"
  shows "\<exists>y. apply_linear lin x = Inr y \<and> length y = length (weight lin)"
  using assms by (simp add: apply_linear_def)

lemma fc_row_fits:
  assumes "list_all (\<lambda>row. length row = n) (weight lin1)"
    and "length (bias lin1) = length (weight lin1)"
    and "list_all (\<lambda>row. length row = length (weight lin1)) (weight lin2)"
    and "length (bias lin2) = length (weight lin2)"
    and "length x = n"
  shows "\<exists>logits s'. fc_row lin1 draw lin2 x s = (Inr logits, s') \<and>
           length logits = length (weight lin2)"
proof -
  from apply_linear_fits[of x lin1] assms(1,2,5) obtain y where
    y: "apply_linear lin1 x = Inr y" "length y = length (weight lin1)" by auto
  obtain y' s1 where d: "dropout_vec draw (map (max 0) y) s = (y', s1)"
    by (cases "dropout_vec draw (map (max 0) y) s")
  from length_dropout_vec[OF d] y(2) have "length y' = length (weight lin1)" by simp
  with apply_linear_fits[of y' lin2] assms(3,4) obtain logits where
    "apply_linear lin2 y' = Inr logits" "length logits = length (weight lin2)" by auto
  with y d show ?thesis by (simp add: fc_row_def)
qed

lemma fc_rows_fits:
  assumes "list_all (\<lambda>row. length row = n) (weight lin1)"
    and "length (bias lin1) = length (weight lin1)"
    and "list_all (\<lambda>row. length row = length (weight lin1)) (weight lin2)"
    and "length (bias lin2) = length (weight lin2)"
    and "list_all (\<lambda>x. length x = n) xs"
  shows "\<exists>rows s'. fc_rows lin1 draw lin2 xs s = (Inr rows, s') \<and> length rows = length xs \<and>
           list_all (\<lambda>r. length r = length (weight lin2)) rows"
  using assms(5)
proof (induction xs arbitrary: s)
  case Nil
  then show ?case by simp
next
  case (Cons x xs)
  from Cons.prems have x: "length x = n" and xs: "list_all (\<lambda>x. length x = n) xs" by simp_all
  from fc_row_fits[OF assms(1-4) x, of draw s] obtain logits s1 where
    l: "fc_row lin1 draw lin2 x s = (Inr logits, s1)" "length logits = length (weight lin2)"
    by blast
  from Cons.IH[OF xs, of s1] obtain rows s2 where
    r: "fc_rows lin1 draw lin2 xs s1 = (Inr rows, s2)" "length rows = length xs"
      "list_all (\<lambda>r. length r = length (weight lin2)) rows" by blast
  from l r show ?case by simp
qed

lemma length_concat_rows:
  "list_all (\<lambda>r. length r = k) rows \<Longrightarrow> length (concat rows) = length rows * k"
  by (induction rows) simp_all

text \<open>
  Claim C8. For a batch of token ids of shape \<open>(B, 1)\<close>, all in the embedding table, and
  a hidden state of shape \<open>(N_layers, B, hidden_dim)\<close>, with a recurrent unit that returns
  hidden vectors of the hidden size and a feed-forward network whose layers fit
  \<open>N_layers * hidden_dim\<close> inputs and \<open>vocab_size\<close> outputs, the decoder returns a pair
  of logits of shape \<open>(B, vocab_size)\<close> and an updated hidden state of shape
  \<open>(N_layers, B, hidden_dim)\<close>.
\<close>

theorem Decoder_forward_shape:
  assumes "shape input_tokens = [B, 1]"
    and "list_all (\<lambda>t. 0 \<le> t \<and> nat t < length (embedding self)) (elems input_tokens)"
    and "shape hidden = [n_layers self, B, hidden_size self]" and "well_shaped hidden"
    and "\<forall>l x h. length h = hidden_size self \<longrightarrow> length (gru self l x h) = hidden_size self"
    and "fc_fits self"
  shows "\<exists>logits hidden' s'. Decoder_forward self input_tokens hidden s = (Inr (logits, hidden'), s') \<and>
           shape logits = [B, output_size self] \<and> well_shaped logits \<and>
           shape hidden' = [n_layers self, B, hidden_size self] \<and> well_shaped hidden'"
proof -
  let ?N = "n_layers self" and ?H = "hidden_size self"
  from lookup_all_in_range[OF assms(2)] obtain z where
    z: "lookup_all (embedding self) (elems input_tokens) = Inr z" by blast
  obtain z' s1 where d: "dropout_all (dropout self) z s = (z', s1)"
    by (cases "dropout_all (dropout self) z s")
  let ?finals = "map (\<lambda>b. gru_run (gru self) (take 1 (drop (b * 1) z'))
                          (map (\<lambda>l. block B ?H hidden l b) [0..<?N])) [0..<B]"
  let ?hidden' = "stack_hidden ?N B ?H ?finals"
  let ?flat = "map (\<lambda>b. concat (map (\<lambda>l. block B ?H ?hidden' l b) [0..<?N])) [0..<B]"
  have init: "list_all (\<lambda>h. length h = ?H) (map (\<lambda>l. block B ?H hidden l b) [0..<?N])" if "b < B" for b
    using length_block[OF assms(3,4) _ that] by (simp add: list_all_length)
  have fin: "\<forall>b<B. length (?finals ! b) = ?N \<and> list_all (\<lambda>h. length h = ?H) (?finals ! b)"
  proof (intro allI impI)
    fix b assume b: "b < B"
    from gru_run_shape[OF assms(5) init[OF b], of "take 1 (drop (b * 1) z')"] b
    show "length (?finals ! b) = ?N \<and> list_all (\<lambda>h. length h = ?H) (?finals ! b)" by simp
  qed
  note hid = well_shaped_stack_hidden[OF fin]
  have flat: "list_all (\<lambda>x. length x = ?N * ?H) ?flat"
  proof -
    have "length (concat (map (\<lambda>l. block B ?H ?hidden' l b) [0..<?N])) = ?N * ?H" if "b < B" for b
    proof (rule length_concat_const, intro allI impI)
      fix l assume "l < ?N"
      then show "length (block B ?H ?hidden' l b) = ?H"
        by (rule length_block[OF hid(2) hid(1) _ that])
    qed
    then show ?thesis unfolding list_all_map_upt by blast
  qed
  from assms(6) have fits:
    "list_all (\<lambda>row. length row = ?N * ?H) (weight (fc_in self))"
    "length (bias (fc_in self)) = length (weight (fc_in self))"
    "list_all (\<lambda>row. length row = length (weight (fc_in self))) (weight (fc_out self))"
    "length (bias (fc_out self)) = length (weight (fc_out self))"
    and out: "length (weight (fc_out self)) = output_size self"
    by (simp_all add: fc_fits_def)
  from fc_rows_fits[OF fits flat, of "dropout self" s1] obtain rows s2 where
    rows: "fc_rows (fc_in self) (dropout self) (fc_out self) ?flat s1 = (Inr rows, s2)"
      "length rows = B" "list_all (\<lambda>r. length r = length (weight (fc_out self))) rows"
    by auto
  let ?logits = "\<lparr>shape = [B, length (weight (fc_out self))], elems = concat rows\<rparr>"
  have run: "Decoder_forward self input_tokens hidden s = (Inr (?logits, ?hidden'), s2)"
    using assms(1,3) z d rows(1) by (simp add: Decoder_forward_def Let_def)
  have "well_shaped ?logits"
    using length_concat_rows[OF rows(3)] rows(2) by (simp add: well_shaped_def)
  moreover have "shape ?logits = [B, output_size self]" using out by simp
  ultimately show ?thesis using run hid by blast
qed

lemmas toy_net_defs = toy_Encoder_def toy_Decoder_def toy_cell_def

lemma toy_cell_length: "\<forall>l x h. length (toy_cell l x h) = length h"
  by (simp add: toy_cell_def)

lemma upt_2: "[0..<2] = [0, Suc 0]"
  by (simp add: upt_rec numeral_2_eq_2)

lemma toy_Encoder_run:
  "Encoder_forward toy_Encoder \<lparr>shape = [2, 3], elems = [0, 1, 1, 0, 0, 0]\<rparr> () =
     (Inr \<lparr>shape = [2, 2, 1], elems = [5, 3, 9, 6]\<rparr>, ())"
  by (simp add: Encoder_forward_def toy_net_defs gru_run_def stack_hidden_def upt_2 replicate_2
      Let_def)

lemma toy_Encoder_run_short:
  "Encoder_forward toy_Encoder \<lparr>shape = [2, 1], elems = [1, 0]\<rparr> () =
     (Inr \<lparr>shape = [2, 2, 1], elems = [2, 1, 2, 1]\<rparr>, ())"
  by (simp add: Encoder_forward_def toy_net_defs gru_run_def stack_hidden_def upt_2 replicate_2
      Let_def)

lemma toy_Decoder_run:
  "Decoder_forward toy_Decoder \<lparr>shape = [2, 1], elems = [0, 1]\<rparr>
       \<lparr>shape = [2, 2, 1], elems = [0, 10, 20, 30]\<rparr> () =
     (Inr (\<lparr>shape = [2, 3], elems = [22, 44, 66, 54, 108, 162]\<rparr>,
           \<lparr>shape = [2, 2, 1], elems = [1, 12, 21, 42]\<rparr>), ())"
  by (simp add: Decoder_forward_def toy_net_defs gru_run_def stack_hidden_def block_def
      fc_row_def apply_linear_def upt_2 Let_def)

theorem Encoder_forward_shape_witness:
  "shape \<lparr>shape = [2, 3], elems = [0, 1, 1, 0, 0, 0 :: int]\<rparr> = [2, 3] \<and>
   list_all (\<lambda>t. 0 \<le> t \<and> nat t < length (embedding toy_Encoder)) [0, 1, 1, 0, 0, 0] \<and>
   (\<forall>l x h. length (gru toy_Encoder l x h) = length h) \<and>
   (\<exists>hidden s'. Encoder_forward toy_Encoder \<lparr>shape = [2, 3], elems = [0, 1, 1, 0, 0, 0]\<rparr> ()
        = (Inr hidden, s') \<and>
      hidden = \<lparr>shape = [2, 2, 1], elems = [5, 3, 9, 6]\<rparr> \<and>
      shape hidden = [n_layers toy_Encoder, 2, hidden_size toy_Encoder] \<and> well_shaped hidden) \<and>
   (\<exists>hidden s'. Encoder_forward toy_Encoder \<lparr>shape = [2, 1], elems = [1, 0]\<rparr> ()
        = (Inr hidden, s') \<and>
      shape hidden = [n_layers toy_Encoder, 2, hidden_size toy_Encoder] \<and> well_shaped hidden)"
proof -
  let ?X = "\<lparr>shape = [2, 3], elems = [0, 1, 1, 0, 0, 0 :: int]\<rparr>"
  let ?X' = "\<lparr>shape = [2, 1], elems = [1, 0 :: int]\<rparr>"
  have sh: "shape ?X = [2, 3]" and sh': "shape ?X' = [2, 1]" by simp_all
  have ids: "list_all (\<lambda>t. 0 \<le> t \<and> nat t < length (embedding toy_Encoder)) (elems ?X)"
    and ids': "list_all (\<lambda>t. 0 \<le> t \<and> nat t < length (embedding toy_Encoder)) (elems ?X')"
    by (simp_all add: toy_Encoder_def)
  have cell: "\<forall>l x h. length (gru toy_Encoder l x h) = length h"
    by (simp add: toy_Encoder_def toy_cell_def)
  then have cell': "\<forall>l x h. length h = hidden_size toy_Encoder \<longrightarrow>
      length (gru toy_Encoder l x h) = hidden_size toy_Encoder" by simp
  from Encoder_forward_shape[OF sh ids cell', of "()"] obtain hidden s' where
    run: "Encoder_forward toy_Encoder ?X () = (Inr hidden, s')"
    and shape: "shape hidden = [n_layers toy_Encoder, 2, hidden_size toy_Encoder]"
    and ws: "well_shaped hidden" by blast
  from run[unfolded toy_Encoder_run]
  have val: "hidden = \<lparr>shape = [2, 2, 1], elems = [5, 3, 9, 6]\<rparr>"
    by simp
  from Encoder_forward_shape[OF sh' ids' cell', of "()"] obtain hidden' s'' where
    run': "Encoder_forward toy_Encoder ?X' () = (Inr hidden', s'')"
    and shape': "shape hidden' = [n_layers toy_Encoder, 2, hidden_size toy_Encoder]"
    and ws': "well_shaped hidden'" by blast
  from ids have ids0: "list_all (\<lambda>t. 0 \<le> t \<and> nat t < length (embedding toy_Encoder)) [0, 1, 1, 0, 0, 0]"
    by simp
  from sh ids0 cell run val shape ws run' shape' ws' show ?thesis by blast
qed

theorem Decoder_forward_shape_witness:
  "shape \<lparr>shape = [2, 1], elems = [0, 1 :: int]\<rparr> = [2, 1] \<and>
   list_all (\<lambda>t. 0 \<le> t \<and> nat t < length (embedding toy_Decoder)) [0, 1] \<and>
   shape \<lparr>shape = [2, 2, 1], elems = [0, 10, 20, 30 :: real]\<rparr>
     = [n_layers toy_Decoder, 2, hidden_size toy_Decoder] \<and>
   well_shaped \<lparr>shape = [2, 2, 1], elems = [0, 10, 20, 30 :: real]\<rparr> \<and>
   (\<forall>l x h. length (gru toy_Decoder l x h) = length h) \<and>
   fc_fits toy_Decoder \<and>
   (\<exists>logits hidden' s'.
      Decoder_forward toy_Decoder \<lparr>shape = [2, 1], elems = [0, 1]\<rparr>
        \<lparr>shape = [2, 2, 1], elems = [0, 10, 20, 30]\<rparr> () = (Inr (logits, hidden'), s') \<and>
      logits = \<lparr>shape = [2, 3], elems = [22, 44, 66, 54, 108, 162]\<rparr> \<and>
      hidden' = \<lparr>shape = [2, 2, 1], elems = [1, 12, 21, 42]\<rparr> \<and>
      shape logits = [2, output_size toy_Decoder] \<and> well_shaped logits \<and>
      shape hidden' = [n_layers toy_Decoder, 2, hidden_size toy_Decoder] \<and> well_shaped hidden')"
proof -
  let ?x = "\<lparr>shape = [2, 1], elems = [0, 1 :: int]\<rparr>"
  let ?h = "\<lparr>shape = [2, 2, 1], elems = [0, 10, 20, 30 :: real]\<rparr>"
  have sh: "shape ?x = [2, 1]" by simp
  have ids: "list_all (\<lambda>t. 0 \<le> t \<and> nat t < length (embedding toy_Decoder)) (elems ?x)"
    by (simp add: toy_Decoder_def)
  have hs: "shape ?h = [n_layers toy_Decoder, 2, hidden_size toy_Decoder]"
    by (simp add: toy_Decoder_def)
  have hw: "well_shaped ?h" by (simp add: well_shaped_def)
  have cell: "\<forall>l x h. length (gru toy_Decoder l x h) = length h"
    by (simp add: toy_Decoder_def toy_cell_def)
  then have cell': "\<forall>l x h. length h = hidden_size toy_Decoder \<longrightarrow>
      length (gru toy_Decoder l x h) = hidden_size toy_Decoder" by simp
  have fits: "fc_fits toy_Decoder" by (simp add: fc_fits_def toy_Decoder_def)
  from Decoder_forward_shape[OF sh ids hs hw cell' fits, of "()"] obtain logits hidden' s' where
    run: "Decoder_forward toy_Decoder ?x ?h () = (Inr (logits, hidden'), s')"
    and shapes: "shape logits = [2, output_size toy_Decoder]" "well_shaped logits"
      "shape hidden' = [n_layers toy_Decoder, 2, hidden_size toy_Decoder]" "well_shaped hidden'"
    by blast
  from run[unfolded toy_Decoder_run]
  have vals: "logits = \<lparr>shape = [2, 3], elems = [22, 44, 66, 54, 108, 162]\<rparr>"
      "hidden' = \<lparr>shape = [2, 2, 1], elems = [1, 12, 21, 42]\<rparr>"
    by simp_all
  from ids have ids0: "list_all (\<lambda>t. 0 \<le> t \<and> nat t < length (embedding toy_Decoder)) [0, 1]"
    by simp
  from sh ids0 hs hw cell fits run vals shapes show ?thesis by blast
qed

section \<open>Generation with the small encoder and decoder\<close>







end
